theory Spec2Isabelle
  imports Complex_Main "HOL-Library.AList"
begin

section \<open>JavaScript numbers\<close>

text \<open>
  A Number is an IEEE 754 binary64 value: \<open>NaN\<close>, one of the two infinities, or a finite
  value, which is held as the rational number it denotes. Every arithmetic operation
  computes the exact result and rounds it to the nearest binary64 value, ties to even
  (\<open>round64\<close>). The two zeros are one value here: \<^verbatim>\<open>-0\<close> and \<^verbatim>\<open>+0\<close> are equal under \<^verbatim>\<open>===\<close>
  and under every comparison, truth test and addition that \<^verbatim>\<open>expandTmCycles\<close> makes, and
  the only division it makes has a divisor that is not \<^verbatim>\<open><= 0\<close>.
\<close>

datatype jsnum = NaN | Fin rat | PInf | NInf

text \<open>Rounding to the nearest integer, a tie going to the even neighbour.\<close>

definition round_half_even :: "rat \<Rightarrow> int" where
  "round_half_even x =
     (if x - of_int \<lfloor>x\<rfloor> < 1 / 2 then \<lfloor>x\<rfloor>
      else if 1 / 2 < x - of_int \<lfloor>x\<rfloor> then \<lfloor>x\<rfloor> + 1
      else if even \<lfloor>x\<rfloor> then \<lfloor>x\<rfloor> else \<lfloor>x\<rfloor> + 1)"

definition pow2 :: "int \<Rightarrow> rat" where
  "pow2 e = (if 0 \<le> e then 2 ^ nat e else 1 / 2 ^ nat (- e))"

text \<open>
  \<open>scale a 0\<close> writes a positive \<open>a\<close> as \<open>m * 2 ^ q\<close> with the significand \<open>m\<close> in
  \<open>[2 ^ 52, 2 ^ 53)\<close>, so that \<open>2 ^ q\<close> is the spacing of the binary64 values around \<open>a\<close>.
  The exponent stops at \<open>-1074\<close>, the spacing of the subnormal values, and at \<open>972\<close>, which
  is beyond the largest finite value.
\<close>

function scale :: "rat \<Rightarrow> int \<Rightarrow> rat \<times> int" where
  "scale a q =
     (if a < 2 ^ 52 \<and> - 1074 < q then scale (2 * a) (q - 1)
      else if 2 ^ 53 \<le> a \<and> q < 972 then scale (a / 2) (q + 1)
      else (a, q))"
  by pat_completeness auto
termination
  by (relation "measure (\<lambda>(a, q). (if a < 2 ^ 52 then nat (q + 1074) else 0)
                                 + (if 2 ^ 53 \<le> a then nat (972 - q) else 0))")
     auto

declare scale.simps [simp del]

text \<open>
  The significand is rounded to an integer; a result of \<open>2 ^ 1024\<close> or more has no finite
  binary64 value and becomes the infinity.
\<close>

definition round_pos :: "rat \<Rightarrow> jsnum" where
  "round_pos a =
     (case scale a 0 of (m, q) \<Rightarrow>
        if 2 ^ 1024 \<le> of_int (round_half_even m) * pow2 q then PInf
        else Fin (of_int (round_half_even m) * pow2 q))"

fun num_neg :: "jsnum \<Rightarrow> jsnum" where
  "num_neg NaN = NaN"
| "num_neg (Fin a) = Fin (- a)"
| "num_neg PInf = NInf"
| "num_neg NInf = PInf"

definition round64 :: "rat \<Rightarrow> jsnum" where
  "round64 x =
     (if x = 0 then Fin 0 else if 0 < x then round_pos x else num_neg (round_pos (- x)))"

text \<open>The sign of a number, and the infinity (or \<open>NaN\<close>) of a given sign.\<close>

fun num_sign :: "jsnum \<Rightarrow> int" where
  "num_sign NaN = 0"
| "num_sign (Fin a) = (if a < 0 then - 1 else if a = 0 then 0 else 1)"
| "num_sign PInf = 1"
| "num_sign NInf = - 1"

definition inf_of :: "int \<Rightarrow> jsnum" where
  "inf_of s = (if s = 0 then NaN else if 0 < s then PInf else NInf)"

text \<open>\<^verbatim>\<open>a + b\<close>, \<^verbatim>\<open>a - b\<close>, \<^verbatim>\<open>a * b\<close> and \<^verbatim>\<open>a / b\<close> on Numbers.\<close>

fun num_add :: "jsnum \<Rightarrow> jsnum \<Rightarrow> jsnum" where
  "num_add (Fin a) (Fin b) = round64 (a + b)"
| "num_add NaN b = NaN"
| "num_add a NaN = NaN"
| "num_add PInf NInf = NaN"
| "num_add NInf PInf = NaN"
| "num_add PInf b = PInf"
| "num_add NInf b = NInf"
| "num_add a PInf = PInf"
| "num_add a NInf = NInf"

definition num_sub :: "jsnum \<Rightarrow> jsnum \<Rightarrow> jsnum" where
  "num_sub a b = num_add a (num_neg b)"

fun num_mul :: "jsnum \<Rightarrow> jsnum \<Rightarrow> jsnum" where
  "num_mul (Fin a) (Fin b) = round64 (a * b)"
| "num_mul NaN b = NaN"
| "num_mul a NaN = NaN"
| "num_mul a b = inf_of (num_sign a * num_sign b)"

fun num_div :: "jsnum \<Rightarrow> jsnum \<Rightarrow> jsnum" where
  "num_div (Fin a) (Fin b) = (if b = 0 then inf_of (num_sign (Fin a)) else round64 (a / b))"
| "num_div NaN b = NaN"
| "num_div a NaN = NaN"
| "num_div (Fin a) b = Fin 0"
| "num_div a (Fin b) = inf_of (num_sign a * (if b < 0 then - 1 else 1))"
| "num_div a b = NaN"

text \<open>\<^verbatim>\<open>Math.ceil\<close>: the ceiling of a binary64 value is a binary64 value.\<close>

fun num_ceil :: "jsnum \<Rightarrow> jsnum" where
  "num_ceil (Fin a) = Fin (of_int \<lceil>a\<rceil>)"
| "num_ceil n = n"

text \<open>\<^verbatim>\<open>a <= b\<close> and \<^verbatim>\<open>a < b\<close>: a comparison with \<open>NaN\<close> is false.\<close>

fun num_le :: "jsnum \<Rightarrow> jsnum \<Rightarrow> bool" where
  "num_le NaN b = False"
| "num_le a NaN = False"
| "num_le (Fin a) (Fin b) = (a \<le> b)"
| "num_le NInf b = True"
| "num_le a PInf = True"
| "num_le a b = False"

fun num_lt :: "jsnum \<Rightarrow> jsnum \<Rightarrow> bool" where
  "num_lt NaN b = False"
| "num_lt a NaN = False"
| "num_lt (Fin a) (Fin b) = (a < b)"
| "num_lt PInf b = False"
| "num_lt a NInf = False"
| "num_lt a b = True"

section \<open>JavaScript values\<close>

text \<open>
  The animation document is what \<^verbatim>\<open>res.json()\<close> decodes: a tree of JSON values.
  \<open>JUndefined\<close> is the value of reading an absent property. An object is the list of its
  own properties in order. An array is the list of its elements together with the list of
  its own named properties: a decoded array has none, and \<^verbatim>\<open>copy.t = ...\<close> adds one when
  \<^verbatim>\<open>copy\<close> is an array.
\<close>

datatype jsv =
    JUndefined
  | JNull
  | JBool bool
  | JNum jsnum
  | JStr string
  | JArr "jsv list" "(string \<times> jsv) list"
  | JObj "(string \<times> jsv) list"

text \<open>The exceptions the code can throw.\<close>

datatype err = TypeError | SyntaxError | RangeError

definition and_then :: "err + 'a \<Rightarrow> ('a \<Rightarrow> err + 'b) \<Rightarrow> err + 'b" where
  "and_then m f = (case m of Inl e \<Rightarrow> Inl e | Inr v \<Rightarrow> f v)"

text \<open>
  Two conversions of the language are not written out: \<^verbatim>\<open>StringToNumber\<close>, which parses
  a string as a numeric literal, and \<^verbatim>\<open>Number::toString\<close>, which prints the shortest
  decimal that reads back as the same Number. Neither can throw. They are parameters of
  the embedding, and every theorem below holds for every choice of them.
\<close>

record builtins =
  string_to_number :: "string \<Rightarrow> jsnum"
  number_to_string :: "jsnum \<Rightarrow> string"

text \<open>
  Property read \<^verbatim>\<open>v.k\<close>, for the property names the code reads from document values
  (\<^verbatim>\<open>layers\<close>, \<^verbatim>\<open>assets\<close>, \<^verbatim>\<open>tm\<close>, \<^verbatim>\<open>x\<close>, \<^verbatim>\<open>k\<close>, \<^verbatim>\<open>t\<close>, \<^verbatim>\<open>op\<close>, \<^verbatim>\<open>ip\<close>): none of them is
  inherited from a prototype, so a primitive yields \<^verbatim>\<open>undefined\<close>, an array yields its own
  named property, and \<^verbatim>\<open>null\<close> and \<^verbatim>\<open>undefined\<close> throw.
\<close>

fun get_prop :: "jsv \<Rightarrow> string \<Rightarrow> err + jsv" where
  "get_prop JUndefined k = Inl TypeError"
| "get_prop JNull k = Inl TypeError"
| "get_prop (JObj fs) k = Inr (case map_of fs k of None \<Rightarrow> JUndefined | Some v \<Rightarrow> v)"
| "get_prop (JArr xs ps) k = Inr (case map_of ps k of None \<Rightarrow> JUndefined | Some v \<Rightarrow> v)"
| "get_prop v k = Inr JUndefined"

text \<open>Truthiness, as \<^verbatim>\<open>!v\<close> and \<^verbatim>\<open>v || d\<close> test it.\<close>

fun truthy :: "jsv \<Rightarrow> bool" where
  "truthy JUndefined = False"
| "truthy JNull = False"
| "truthy (JBool b) = b"
| "truthy (JNum NaN) = False"
| "truthy (JNum (Fin r)) = (r \<noteq> 0)"
| "truthy (JNum n) = True"
| "truthy (JStr s) = (s \<noteq> [])"
| "truthy (JArr xs ps) = True"
| "truthy (JObj fs) = True"

definition js_or :: "jsv \<Rightarrow> jsv \<Rightarrow> jsv" where
  "js_or a b = (if truthy a then a else b)"

text \<open>
  \<^verbatim>\<open>ToString\<close>. An array is printed by \<^verbatim>\<open>Array.prototype.join\<close>: its elements separated
  by commas, \<^verbatim>\<open>null\<close> and \<^verbatim>\<open>undefined\<close> printed as the empty string. An object is printed
  by the inherited \<^verbatim>\<open>Object.prototype.toString\<close>, unless it has an own property
  \<^verbatim>\<open>toString\<close>: a document value is not callable, the inherited \<^verbatim>\<open>valueOf\<close> returns the
  object itself, and the conversion throws.
\<close>

fun commas :: "string list \<Rightarrow> string" where
  "commas [] = []"
| "commas [s] = s"
| "commas (s # t # ts) = s @ '','' @ commas (t # ts)"

fun to_string :: "builtins \<Rightarrow> jsv \<Rightarrow> err + string"
  and to_strings :: "builtins \<Rightarrow> jsv list \<Rightarrow> err + string list" where
  "to_string B JUndefined = Inr ''undefined''"
| "to_string B JNull = Inr ''null''"
| "to_string B (JBool b) = Inr (if b then ''true'' else ''false'')"
| "to_string B (JNum n) = Inr (number_to_string B n)"
| "to_string B (JStr s) = Inr s"
| "to_string B (JArr xs ps) = and_then (to_strings B xs) (\<lambda>ss. Inr (commas ss))"
| "to_string B (JObj fs) =
     (case map_of fs ''toString'' of
        None \<Rightarrow> Inr ''[object Object]''
      | Some m \<Rightarrow> Inl TypeError)"
| "to_strings B [] = Inr []"
| "to_strings B (x # xs) =
     and_then (if x = JUndefined \<or> x = JNull then Inr [] else to_string B x) (\<lambda>s.
     and_then (to_strings B xs) (\<lambda>ss. Inr (s # ss)))"

text \<open>
  \<^verbatim>\<open>ToPrimitive\<close>: an array or an object becomes the string it prints as (the inherited
  \<^verbatim>\<open>valueOf\<close> returns the object itself, so \<^verbatim>\<open>toString\<close> decides under every hint).
\<close>

fun to_primitive :: "builtins \<Rightarrow> jsv \<Rightarrow> err + jsv" where
  "to_primitive B (JArr xs ps) = and_then (to_string B (JArr xs ps)) (\<lambda>s. Inr (JStr s))"
| "to_primitive B (JObj fs) = and_then (to_string B (JObj fs)) (\<lambda>s. Inr (JStr s))"
| "to_primitive B v = Inr v"

text \<open>\<^verbatim>\<open>ToNumber\<close>.\<close>

fun to_number :: "builtins \<Rightarrow> jsv \<Rightarrow> err + jsnum" where
  "to_number B JUndefined = Inr NaN"
| "to_number B JNull = Inr (Fin 0)"
| "to_number B (JBool b) = Inr (Fin (if b then 1 else 0))"
| "to_number B (JNum n) = Inr n"
| "to_number B (JStr s) = Inr (string_to_number B s)"
| "to_number B (JArr xs ps) =
     and_then (to_string B (JArr xs ps)) (\<lambda>s. Inr (string_to_number B s))"
| "to_number B (JObj fs) =
     and_then (to_string B (JObj fs)) (\<lambda>s. Inr (string_to_number B s))"

text \<open>
  \<^verbatim>\<open>a - b\<close> converts both operands to Numbers, left first. \<^verbatim>\<open>a + b\<close> converts both to
  primitives, left first, and concatenates when one of them is a string.
\<close>

definition js_sub :: "builtins \<Rightarrow> jsv \<Rightarrow> jsv \<Rightarrow> err + jsnum" where
  "js_sub B a b =
     and_then (to_number B a) (\<lambda>x. and_then (to_number B b) (\<lambda>y. Inr (num_sub x y)))"

fun is_string :: "jsv \<Rightarrow> bool" where
  "is_string (JStr s) = True"
| "is_string v = False"

definition js_add :: "builtins \<Rightarrow> jsv \<Rightarrow> jsv \<Rightarrow> err + jsv" where
  "js_add B a b =
     and_then (to_primitive B a) (\<lambda>p.
     and_then (to_primitive B b) (\<lambda>q.
     if is_string p \<or> is_string q
     then and_then (to_string B p) (\<lambda>s. and_then (to_string B q) (\<lambda>t. Inr (JStr (s @ t))))
     else and_then (to_number B p) (\<lambda>x. and_then (to_number B q) (\<lambda>y. Inr (JNum (num_add x y))))))"

text \<open>\<^verbatim>\<open>String.prototype.includes\<close>: the pattern occurs as a contiguous substring.\<close>

fun starts_with :: "string \<Rightarrow> string \<Rightarrow> bool" where
  "starts_with s [] = True"
| "starts_with [] (p # ps) = False"
| "starts_with (c # cs) (p # ps) = (c = p \<and> starts_with cs ps)"

fun str_includes :: "string \<Rightarrow> string \<Rightarrow> bool" where
  "str_includes [] pat = starts_with [] pat"
| "str_includes (c # cs) pat = (starts_with (c # cs) pat \<or> str_includes cs pat)"

text \<open>
  The method call \<^verbatim>\<open>x.includes('loopOut')\<close> on a truthy \<^verbatim>\<open>x\<close>: a string searches for
  the substring, an array for an element equal to the string, and every other value
  has no callable \<^verbatim>\<open>includes\<close>, which throws.
\<close>

fun includes_loopOut :: "jsv \<Rightarrow> err + bool" where
  "includes_loopOut (JStr s) = Inr (str_includes s ''loopOut'')"
| "includes_loopOut (JArr xs ps) = Inr (JStr ''loopOut'' \<in> set xs)"
| "includes_loopOut v = Inl TypeError"

text \<open>
  Assignment \<^verbatim>\<open>o.k = v\<close> (the file is an ES module, hence strict: assigning to a property
  of a primitive throws) and \<^verbatim>\<open>delete o.k\<close>, for the names \<^verbatim>\<open>t\<close>, \<^verbatim>\<open>k\<close>, \<^verbatim>\<open>x\<close> and \<^verbatim>\<open>tm\<close>.
\<close>

fun set_prop :: "jsv \<Rightarrow> string \<Rightarrow> jsv \<Rightarrow> err + jsv" where
  "set_prop (JObj fs) k v = Inr (JObj (AList.update k v fs))"
| "set_prop (JArr xs ps) k v = Inr (JArr xs (AList.update k v ps))"
| "set_prop o' k v = Inl TypeError"

fun delete_prop :: "jsv \<Rightarrow> string \<Rightarrow> err + jsv" where
  "delete_prop (JObj fs) k = Inr (JObj (AList.delete k fs))"
| "delete_prop (JArr xs ps) k = Inr (JArr xs (AList.delete k ps))"
| "delete_prop JUndefined k = Inl TypeError"
| "delete_prop JNull k = Inl TypeError"
| "delete_prop v k = Inr v"

text \<open>
  \<^verbatim>\<open>JSON.parse(JSON.stringify(v))\<close>: \<open>NaN\<close> and the infinities are written as \<^verbatim>\<open>null\<close>, an
  undefined array element as \<^verbatim>\<open>null\<close>, an undefined property is left out, the named
  properties of an array are left out, and \<^verbatim>\<open>undefined\<close> itself stringifies to
  \<^verbatim>\<open>undefined\<close>, which \<^verbatim>\<open>JSON.parse\<close> rejects.
\<close>

fun json_roundtrip :: "jsv \<Rightarrow> jsv" where
  "json_roundtrip JUndefined = JUndefined"
| "json_roundtrip JNull = JNull"
| "json_roundtrip (JBool b) = JBool b"
| "json_roundtrip (JNum (Fin r)) = JNum (Fin r)"
| "json_roundtrip (JNum n) = JNull"
| "json_roundtrip (JStr s) = JStr s"
| "json_roundtrip (JArr xs ps) =
     JArr (map (\<lambda>x. if json_roundtrip x = JUndefined then JNull else json_roundtrip x) xs) []"
| "json_roundtrip (JObj fs) =
     JObj (filter (\<lambda>kv. snd kv \<noteq> JUndefined) (map (\<lambda>kv. (fst kv, json_roundtrip (snd kv))) fs))"

definition json_clone :: "jsv \<Rightarrow> err + jsv" where
  "json_clone v = (if json_roundtrip v = JUndefined then Inl SyntaxError else Inr (json_roundtrip v))"

text \<open>
  \<^verbatim>\<open>Array.prototype.push\<close>: an array holds at most \<open>2 ^ 32 - 1\<close> elements; pushing onto an
  array of that length throws a \<^verbatim>\<open>RangeError\<close>.
\<close>

definition max_array_length :: nat where
  "max_array_length = 2 ^ 32 - 1"

definition array_push :: "jsv list \<Rightarrow> jsv \<Rightarrow> err + jsv list" where
  "array_push xs x = (if length xs < max_array_length then Inr (xs @ [x]) else Inl RangeError)"

section \<open>expandTmCycles\<close>

text \<open>
  The body of the inner \<^verbatim>\<open>kfs.forEach\<close>: clone the keyframe, read \<^verbatim>\<open>kf.t\<close> from the
  original, add the offset, store it in the copy.
\<close>

definition shifted_copy :: "builtins \<Rightarrow> jsnum \<Rightarrow> jsv \<Rightarrow> err + jsv" where
  "shifted_copy B off kf =
     and_then (json_clone kf) (\<lambda>copy.
     and_then (get_prop kf ''t'') (\<lambda>t.
     and_then (js_add B t (JNum off)) (\<lambda>t'.
     set_prop copy ''t'' t')))"

text \<open>\<^verbatim>\<open>kfs.forEach((kf) => { ...; expanded.push(copy); })\<close>\<close>

fun push_copies :: "builtins \<Rightarrow> jsnum \<Rightarrow> jsv list \<Rightarrow> jsv list \<Rightarrow> err + jsv list" where
  "push_copies B off [] expanded = Inr expanded"
| "push_copies B off (kf # kfs) expanded =
     and_then (shifted_copy B off kf) (\<lambda>copy.
     and_then (array_push expanded copy) (\<lambda>expanded'.
     push_copies B off kfs expanded'))"

text \<open>
  \<^verbatim>\<open>for (let c = 0; c < cycles; c += 1) { const off = c * cycleDur; ... }\<close>. The loop is
  reached only after \<^verbatim>\<open>kfs.length < 2\<close> has returned, so \<^verbatim>\<open>kfs\<close> is not empty in it; the
  test on \<open>kfs\<close> below is that guard, repeated to make the function total. Every pass
  pushes at least one element and \<^verbatim>\<open>push\<close> throws at \<open>2 ^ 32 - 1\<close> elements, so the loop
  ends, and the counter stays below \<open>2 ^ 32\<close>, where \<^verbatim>\<open>c += 1\<close> is exact.
\<close>

function cycle_loop ::
  "builtins \<Rightarrow> jsv list \<Rightarrow> jsnum \<Rightarrow> jsnum \<Rightarrow> nat \<Rightarrow> jsv list \<Rightarrow> err + jsv list" where
  "cycle_loop B kfs cycleDur cycles c expanded =
     (if kfs \<noteq> [] \<and> num_lt (Fin (of_nat c)) cycles
      then (case push_copies B (num_mul (Fin (of_nat c)) cycleDur) kfs expanded of
              Inl e \<Rightarrow> Inl e
            | Inr expanded' \<Rightarrow> cycle_loop B kfs cycleDur cycles (c + 1) expanded')
      else Inr expanded)"
  by pat_completeness auto
termination
proof (relation "measure (\<lambda>(B, kfs, cycleDur, cycles, c, expanded).
                   max_array_length - length expanded)")
  show "wf (measure (\<lambda>(B, kfs, cycleDur, cycles, c, expanded).
                   max_array_length - length expanded))"
    by simp
next
  fix B :: builtins and kfs :: "jsv list" and cycleDur cycles :: jsnum and c :: nat
    and expanded x2 :: "jsv list"
  assume enter: "kfs \<noteq> [] \<and> num_lt (Fin (of_nat c)) cycles"
    and push: "push_copies B (num_mul (Fin (of_nat c)) cycleDur) kfs expanded = Inr x2"
  have grow: "push_copies B off ks e = Inr e' \<Longrightarrow>
              length e' = length e + length ks \<and> (ks \<noteq> [] \<longrightarrow> length e' \<le> max_array_length)"
    for off ks e e'
  proof (induction ks arbitrary: e)
    case Nil
    then show ?case by simp
  next
    case (Cons kf ks)
    from Cons.prems obtain copy e1 where
      e1: "array_push e copy = Inr e1" and rest: "push_copies B off ks e1 = Inr e'"
      by (cases "shifted_copy B off kf"; cases "array_push e (projr (shifted_copy B off kf))")
         (auto simp: and_then_def)
    from e1 have l1: "length e1 = length e + 1" "length e1 \<le> max_array_length"
      by (auto simp: array_push_def split: if_splits)
    from Cons.IH [OF rest] l1 show ?case by (cases ks) auto
  qed
  from grow [OF push] enter
  have "length expanded < length x2" "length x2 \<le> max_array_length"
    by (cases kfs; simp)+
  then show "((B, kfs, cycleDur, cycles, c + 1, x2), (B, kfs, cycleDur, cycles, c, expanded))
        \<in> measure (\<lambda>(B, kfs, cycleDur, cycles, c, expanded).
                   max_array_length - length expanded)"
    by simp
qed

declare cycle_loop.simps [simp del]

text \<open>
  The callback of \<^verbatim>\<open>layers.forEach\<close>, in two parts: \<open>expand_layer\<close> is the callback up
  to the test \<^verbatim>\<open>Array.isArray(kfs)\<close>, and \<open>expand_keyframes\<close> is the rest of its body,
  from \<^verbatim>\<open>kfs.length < 2\<close> on. The mutations \<^verbatim>\<open>tm.k = expanded; delete tm.x\<close> act on the
  object that \<^verbatim>\<open>layer.tm\<close> refers to, so the changed \<^verbatim>\<open>tm\<close> is stored back in the layer.
\<close>

definition expand_keyframes :: "builtins \<Rightarrow> jsv \<Rightarrow> jsv \<Rightarrow> jsv list \<Rightarrow> err + jsv" where
  "expand_keyframes B layer tm ks =
     (if length ks < 2 then Inr layer else
      and_then (get_prop (ks ! (length ks - 1)) ''t'') (\<lambda>t_last.
      and_then (get_prop (ks ! 0) ''t'') (\<lambda>t_first.
      and_then (js_sub B t_last t_first) (\<lambda>cycleDur.
      if num_le cycleDur (Fin 0) then Inr layer else
      and_then (get_prop layer ''op'') (\<lambda>op.
      and_then (get_prop layer ''ip'') (\<lambda>ip.
      and_then (js_sub B (js_or op (JNum (Fin 900))) (js_or ip (JNum (Fin 0)))) (\<lambda>dur.
      let cycles = num_add (num_ceil (num_div dur cycleDur)) (Fin 1) in
      and_then (cycle_loop B ks cycleDur cycles 0 []) (\<lambda>expanded.
      and_then (set_prop tm ''k'' (JArr expanded [])) (\<lambda>tm1.
      and_then (delete_prop tm1 ''x'') (\<lambda>tm2.
      set_prop layer ''tm'' tm2))))))))))"

definition expand_layer :: "builtins \<Rightarrow> jsv \<Rightarrow> err + jsv" where
  "expand_layer B layer =
     and_then (get_prop layer ''tm'') (\<lambda>tm.
     if \<not> truthy tm then Inr layer else
     and_then (get_prop tm ''x'') (\<lambda>x.
     if \<not> truthy x then Inr layer else
     and_then (includes_loopOut x) (\<lambda>has.
     if \<not> has then Inr layer else
     and_then (get_prop tm ''k'') (\<lambda>kfs.
     case kfs of
       JArr ks ps \<Rightarrow> expand_keyframes B layer tm ks
     | _ \<Rightarrow> Inr layer))))"

text \<open>\<^verbatim>\<open>forEach\<close> with a callback that may throw: the first exception ends the iteration.\<close>

fun for_each :: "('a \<Rightarrow> err + 'a) \<Rightarrow> 'a list \<Rightarrow> err + 'a list" where
  "for_each f [] = Inr []"
| "for_each f (x # xs) =
     and_then (f x) (\<lambda>y. and_then (for_each f xs) (\<lambda>ys. Inr (y # ys)))"

text \<open>\<^verbatim>\<open>walk\<close>: anything but an array is left alone.\<close>

fun walk :: "builtins \<Rightarrow> jsv \<Rightarrow> err + jsv" where
  "walk B (JArr layers ps) =
     and_then (for_each (expand_layer B) layers) (\<lambda>ls. Inr (JArr ls ps))"
| "walk B v = Inr v"

text \<open>
  The value read from a property was changed in place; \<open>put_back\<close> writes the changed
  value where it was read from. When the property is absent, nothing was read.
\<close>

fun put_back :: "jsv \<Rightarrow> string \<Rightarrow> jsv \<Rightarrow> jsv" where
  "put_back (JObj fs) k v = (if map_of fs k = None then JObj fs else JObj (AList.update k v fs))"
| "put_back (JArr xs ps) k v =
     (if map_of ps k = None then JArr xs ps else JArr xs (AList.update k v ps))"
| "put_back d k v = d"

definition walk_asset :: "builtins \<Rightarrow> jsv \<Rightarrow> err + jsv" where
  "walk_asset B a =
     and_then (get_prop a ''layers'') (\<lambda>ls.
     and_then (walk B ls) (\<lambda>ls'. Inr (put_back a ''layers'' ls')))"

text \<open>
  \<^verbatim>\<open>expandTmCycles\<close> of \<^verbatim>\<open>blocks/lottie-animation-v8/lottie-animation-v8.js\<close>. The
  JavaScript function mutates the document and returns nothing; the model returns the
  document after the call, or the exception that ended it.
\<close>

definition expandTmCycles :: "builtins \<Rightarrow> jsv \<Rightarrow> err + jsv" where
  "expandTmCycles B data =
     and_then (get_prop data ''layers'') (\<lambda>layers.
     and_then (walk B layers) (\<lambda>layers'.
     let data1 = put_back data ''layers'' layers' in
     and_then (get_prop data1 ''assets'') (\<lambda>assets.
     case assets of
       JArr as ps \<Rightarrow>
         and_then (for_each (walk_asset B) as)
           (\<lambda>as'. Inr (put_back data1 ''assets'' (JArr as' ps)))
     | _ \<Rightarrow> Inr data1)))"

section \<open>Vocabulary of the claims\<close>

text \<open>
  \<open>json_num x\<close> is the Number that a JSON numeric literal of exact value \<open>x\<close> decodes to,
  and a rational is a \<open>double\<close> when it is the value of a finite Number.
\<close>

definition json_num :: "rat \<Rightarrow> jsnum" where
  "json_num x = round64 x"

definition double :: "rat \<Rightarrow> bool" where
  "double r = (round64 r = Fin r)"

text \<open>
  A decoded JSON value whose numbers are all finite: it contains neither \<^verbatim>\<open>undefined\<close>
  nor \<open>NaN\<close> nor an infinity (JSON text such as \<^verbatim>\<open>1e999\<close> decodes to one), and its arrays
  have no named properties. A keyframe, as the data model of the specification has it, is
  such an object with a numeric \<^verbatim>\<open>t\<close>.
\<close>

fun json_value :: "jsv \<Rightarrow> bool" where
  "json_value JUndefined = False"
| "json_value (JNum (Fin r)) = True"
| "json_value (JNum n) = False"
| "json_value (JArr xs ps) = (ps = [] \<and> (\<forall>x\<in>set xs. json_value x))"
| "json_value (JObj fs) = (\<forall>kv\<in>set fs. json_value (snd kv))"
| "json_value v = True"

definition keyframe :: "jsv \<Rightarrow> bool" where
  "keyframe kf =
     (json_value kf \<and>
      (case kf of
         JObj fs \<Rightarrow> (case map_of fs ''t'' of Some (JNum (Fin r)) \<Rightarrow> double r | _ \<Rightarrow> False)
       | _ \<Rightarrow> False))"

fun time_of :: "jsv \<Rightarrow> jsnum" where
  "time_of (JObj fs) = (case map_of fs ''t'' of Some (JNum n) \<Rightarrow> n | _ \<Rightarrow> NaN)"
| "time_of v = NaN"

fun with_time :: "jsv \<Rightarrow> jsnum \<Rightarrow> jsv" where
  "with_time (JObj fs) n = JObj (AList.update ''t'' (JNum n) fs)"
| "with_time v n = v"

text \<open>
  The copy of keyframe \<open>kf\<close> for cycle \<open>c\<close>: \<open>kf\<close> with \<^verbatim>\<open>t\<close> changed to
  \<^verbatim>\<open>kf.t + c * cycleDur\<close>, the product and the sum each rounded. The expansion is the
  concatenation of the copies, cycles outermost.
\<close>

definition shifted :: "jsnum \<Rightarrow> nat \<Rightarrow> jsv \<Rightarrow> jsv" where
  "shifted cycleDur c kf =
     with_time kf (num_add (time_of kf) (num_mul (Fin (of_nat c)) cycleDur))"

definition expansion :: "jsv list \<Rightarrow> jsnum \<Rightarrow> nat \<Rightarrow> jsv list" where
  "expansion ks cycleDur cycles = concat (map (\<lambda>c. map (shifted cycleDur c) ks) [0..<cycles])"

text \<open>
  The specification's reading of \<^verbatim>\<open>op\<close> and \<^verbatim>\<open>ip\<close>: the default when the field is
  absent or falsy, the Number the field converts to otherwise.
\<close>

definition frame_or :: "builtins \<Rightarrow> (string \<times> jsv) list \<Rightarrow> string \<Rightarrow> rat \<Rightarrow> err + jsnum" where
  "frame_or B fs k d =
     (case map_of fs k of
        None \<Rightarrow> Inr (Fin d)
      | Some v \<Rightarrow> if truthy v then to_number B v else Inr (Fin d))"

text \<open>
  The specification's formula \<open>ceil((op - ip) / cycleDur) + 1\<close>, each operation rounded as
  JavaScript rounds it, and the number of passes that a loop \<^verbatim>\<open>for (c = 0; c < cycles;
  c += 1)\<close> makes for a finite \<^verbatim>\<open>cycles\<close>: none when it is not positive.
\<close>

definition cycle_count :: "jsnum \<Rightarrow> jsnum \<Rightarrow> jsnum \<Rightarrow> jsnum" where
  "cycle_count op' ip' cycleDur =
     num_add (num_ceil (num_div (num_sub op' ip') cycleDur)) (Fin 1)"

fun passes :: "jsnum \<Rightarrow> nat" where
  "passes (Fin m) = nat \<lceil>m\<rceil>"
| "passes n = 0"

text \<open>
  Keyframe times that are whole frame numbers, small enough for every sum
  \<open>t + c * cycleDur\<close> of the expansion to be exact.
\<close>

definition whole_frames :: "jsv list \<Rightarrow> rat \<Rightarrow> nat \<Rightarrow> bool" where
  "whole_frames ks cycleDur cycles =
     ((\<forall>kf\<in>set ks. case time_of kf of
                      Fin r \<Rightarrow> of_int \<lfloor>r\<rfloor> = r \<and> \<bar>r\<bar> \<le> 2 ^ 52
                    | _ \<Rightarrow> False)
      \<and> of_nat cycles * cycleDur \<le> 2 ^ 52)"

definition times_sorted :: "jsv list \<Rightarrow> bool" where
  "times_sorted ks = sorted_wrt num_le (map time_of ks)"

text \<open>
  Where a layer sits in a document: in the top-level \<^verbatim>\<open>layers\<close> array, or in the
  \<^verbatim>\<open>layers\<close> array of an entry of \<^verbatim>\<open>assets\<close>.
\<close>

datatype position = Top nat | InAsset nat nat

definition layers_of :: "jsv \<Rightarrow> jsv list option" where
  "layers_of v = (case get_prop v ''layers'' of Inr (JArr ls ps) \<Rightarrow> Some ls | _ \<Rightarrow> None)"

definition assets_of :: "jsv \<Rightarrow> jsv list option" where
  "assets_of v = (case get_prop v ''assets'' of Inr (JArr as ps) \<Rightarrow> Some as | _ \<Rightarrow> None)"

fun nth_opt :: "'a list option \<Rightarrow> nat \<Rightarrow> 'a option" where
  "nth_opt None i = None"
| "nth_opt (Some xs) i = (if i < length xs then Some (xs ! i) else None)"

fun layer_at :: "jsv \<Rightarrow> position \<Rightarrow> jsv option" where
  "layer_at d (Top i) = nth_opt (layers_of d) i"
| "layer_at d (InAsset j i) =
     (case nth_opt (assets_of d) j of None \<Rightarrow> None | Some a \<Rightarrow> nth_opt (layers_of a) i)"

definition keyframes_at :: "jsv \<Rightarrow> position \<Rightarrow> jsv list option" where
  "keyframes_at d p =
     (case layer_at d p of
        None \<Rightarrow> None
      | Some l \<Rightarrow>
          (case get_prop l ''tm'' of
             Inr tm \<Rightarrow> (case get_prop tm ''k'' of Inr (JArr ks ps) \<Rightarrow> Some ks | _ \<Rightarrow> None)
           | Inl e \<Rightarrow> None))"















subsection \<open>Example documents\<close>

definition scenario_doc :: jsv where
  "scenario_doc =
     JObj [(''layers'', JArr [JObj [(''ip'', JNum (Fin 0)), (''op'', JNum (Fin 100)),
       (''tm'', JObj [(''x'', JStr ''loopOut('cycle')''),
                      (''k'', JArr [JObj [(''t'', JNum (Fin 0)), (''v'', JNum (Fin 0))],
                                    JObj [(''t'', JNum (Fin 25)), (''v'', JNum (Fin 1))]] [])])]] [])]"

definition scenario_result :: jsv where
  "scenario_result =
     JObj [(''layers'', JArr [JObj [(''ip'', JNum (Fin 0)), (''op'', JNum (Fin 100)),
       (''tm'', JObj [(''k'', JArr [JObj [(''t'', JNum (Fin 0)), (''v'', JNum (Fin 0))],
                                    JObj [(''t'', JNum (Fin 25)), (''v'', JNum (Fin 1))],
                                    JObj [(''t'', JNum (Fin 25)), (''v'', JNum (Fin 0))],
                                    JObj [(''t'', JNum (Fin 50)), (''v'', JNum (Fin 1))],
                                    JObj [(''t'', JNum (Fin 50)), (''v'', JNum (Fin 0))],
                                    JObj [(''t'', JNum (Fin 75)), (''v'', JNum (Fin 1))],
                                    JObj [(''t'', JNum (Fin 75)), (''v'', JNum (Fin 0))],
                                    JObj [(''t'', JNum (Fin 100)), (''v'', JNum (Fin 1))],
                                    JObj [(''t'', JNum (Fin 100)), (''v'', JNum (Fin 0))],
                                    JObj [(''t'', JNum (Fin 125)), (''v'', JNum (Fin 1))]] [])])]] [])]"

definition negative_span_doc :: jsv where
  "negative_span_doc =
     JObj [(''layers'', JArr [JObj [(''ip'', JNum (Fin 100)), (''op'', JNum (Fin 50)),
       (''tm'', JObj [(''x'', JStr ''loopOut('cycle')''),
                      (''k'', JArr [JObj [(''t'', JNum (Fin 0)), (''v'', JNum (Fin 0))],
                                    JObj [(''t'', JNum (Fin 25)), (''v'', JNum (Fin 1))]] [])])]] [])]"

definition negative_span_result :: jsv where
  "negative_span_result =
     JObj [(''layers'', JArr [JObj [(''ip'', JNum (Fin 100)), (''op'', JNum (Fin 50)),
       (''tm'', JObj [(''k'', JArr [] [])])]] [])]"

text \<open>
  Keyframes at \<^verbatim>\<open>t = 0.2\<close> and \<^verbatim>\<open>t = 0.9\<close> in a layer from 0 to 1, and what the function
  makes of them: the third time, \<^verbatim>\<open>0.2 + 1 * (0.9 - 0.2)\<close>, is \<^verbatim>\<open>0.8999999999999999\<close>.
\<close>

definition fraction_doc :: jsv where
  "fraction_doc =
     JObj [(''layers'', JArr [JObj [(''ip'', JNum (Fin 0)), (''op'', JNum (Fin 1)),
       (''tm'', JObj [(''x'', JStr ''loopOut('cycle')''),
                      (''k'', JArr [JObj [(''t'', JNum (json_num (2 / 10)))],
                                    JObj [(''t'', JNum (json_num (9 / 10)))]] [])])]] [])]"

definition fraction_result :: jsv where
  "fraction_result =
     JObj [(''layers'', JArr [JObj [(''ip'', JNum (Fin 0)), (''op'', JNum (Fin 1)),
       (''tm'', JObj [(''k'', JArr [JObj [(''t'', JNum (json_num (2 / 10)))],
                                    JObj [(''t'', JNum (json_num (9 / 10)))],
                                    JObj [(''t'', JNum (json_num (8999999999999999 / 10000000000000000)))],
                                    JObj [(''t'', JNum (json_num (16 / 10)))],
                                    JObj [(''t'', JNum (json_num (15999999999999999 / 10000000000000000)))],
                                    JObj [(''t'', JNum (json_num (23 / 10)))]] [])])]] [])]"

text \<open>
  A keyframe value that overflowed to \<^verbatim>\<open>Infinity\<close> when the JSON text was decoded (such as
  \<^verbatim>\<open>1e999\<close>) comes back from the clone as \<^verbatim>\<open>null\<close>; and a last keyframe at an infinite
  \<^verbatim>\<open>t\<close> gives an infinite cycle duration, one cycle and the time \<open>NaN\<close> for every copy.
\<close>

definition overflow_doc :: jsv where
  "overflow_doc =
     JObj [(''layers'', JArr [JObj [(''ip'', JNum (Fin 0)), (''op'', JNum (Fin 10)),
       (''tm'', JObj [(''x'', JStr ''loopOut('cycle')''),
                      (''k'', JArr [JObj [(''t'', JNum (Fin 0)), (''v'', JNum PInf)],
                                    JObj [(''t'', JNum (Fin 10)), (''v'', JNum (Fin 1))]] [])])]] [])]"

definition overflow_result :: jsv where
  "overflow_result =
     JObj [(''layers'', JArr [JObj [(''ip'', JNum (Fin 0)), (''op'', JNum (Fin 10)),
       (''tm'', JObj [(''k'', JArr [JObj [(''t'', JNum (Fin 0)), (''v'', JNull)],
                                    JObj [(''t'', JNum (Fin 10)), (''v'', JNum (Fin 1))],
                                    JObj [(''t'', JNum (Fin 10)), (''v'', JNull)],
                                    JObj [(''t'', JNum (Fin 20)), (''v'', JNum (Fin 1))]] [])])]] [])]"

definition endless_doc :: jsv where
  "endless_doc =
     JObj [(''layers'', JArr [JObj [(''ip'', JNum (Fin 0)), (''op'', JNum (Fin 10)),
       (''tm'', JObj [(''x'', JStr ''loopOut('cycle')''),
                      (''k'', JArr [JObj [(''t'', JNum (Fin 0))],
                                    JObj [(''t'', JNum PInf)]] [])])]] [])]"

definition endless_result :: jsv where
  "endless_result =
     JObj [(''layers'', JArr [JObj [(''ip'', JNum (Fin 0)), (''op'', JNum (Fin 10)),
       (''tm'', JObj [(''k'', JArr [JObj [(''t'', JNum NaN)],
                                    JObj [(''t'', JNum NaN)]] [])])]] [])]"







text \<open>
  A layer whose \<^verbatim>\<open>tm.k\<close> holds two entries without \<^verbatim>\<open>t\<close>, and what the function makes of
  it.
\<close>

definition untimed_doc :: jsv where
  "untimed_doc =
     JObj [(''layers'', JArr [JObj [(''ip'', JNum (Fin 0)), (''op'', JNum (Fin 100)),
       (''tm'', JObj [(''x'', JStr ''loopOut('cycle')''),
                      (''k'', JArr [JObj [(''v'', JNum (Fin 1))],
                                    JObj [(''v'', JNum (Fin 2))]] [])])]] [])]"

definition untimed_result :: jsv where
  "untimed_result =
     JObj [(''layers'', JArr [JObj [(''ip'', JNum (Fin 0)), (''op'', JNum (Fin 100)),
       (''tm'', JObj [(''k'', JArr [] [])])]] [])]"

definition asset_doc :: jsv where
  "asset_doc =
     JObj [(''assets'', JArr [JObj [(''id'', JStr ''comp_0''),
       (''layers'', JArr [JObj [(''ip'', JNum (Fin 0)), (''op'', JNum (Fin 20)),
          (''tm'', JObj [(''x'', JStr ''loopOut('cycle')''),
                         (''k'', JArr [JObj [(''t'', JNum (Fin 0))], JObj [(''t'', JNum (Fin 20))]] [])])]] [])]] []),
           (''layers'', JArr [] [])]"

definition asset_result :: jsv where
  "asset_result =
     JObj [(''assets'', JArr [JObj [(''id'', JStr ''comp_0''),
       (''layers'', JArr [JObj [(''ip'', JNum (Fin 0)), (''op'', JNum (Fin 20)),
          (''tm'', JObj [(''k'', JArr [JObj [(''t'', JNum (Fin 0))], JObj [(''t'', JNum (Fin 20))],
                                       JObj [(''t'', JNum (Fin 20))], JObj [(''t'', JNum (Fin 40))]] [])])]] [])]] []),
           (''layers'', JArr [] [])]"




section \<open>The second copy of expandTmCycles\<close>

text \<open>
  The repository holds a second block file (the source file whose name is not recorded)
  with its own \<^verbatim>\<open>expandTmCycles\<close>. It is embedded here from that file, function by
  function, under the suffix \<open>_part000\<close>; \<open>for_each\<close>, \<open>put_back\<close> and the operations
  of the language are shared.
\<close>

definition shifted_copy_part000 :: "builtins \<Rightarrow> jsnum \<Rightarrow> jsv \<Rightarrow> err + jsv" where
  "shifted_copy_part000 B off kf =
     and_then (json_clone kf) (\<lambda>copy.
     and_then (get_prop kf ''t'') (\<lambda>t.
     and_then (js_add B t (JNum off)) (\<lambda>t'.
     set_prop copy ''t'' t')))"

fun push_copies_part000 :: "builtins \<Rightarrow> jsnum \<Rightarrow> jsv list \<Rightarrow> jsv list \<Rightarrow> err + jsv list" where
  "push_copies_part000 B off [] expanded = Inr expanded"
| "push_copies_part000 B off (kf # kfs) expanded =
     and_then (shifted_copy_part000 B off kf) (\<lambda>copy.
     and_then (array_push expanded copy) (\<lambda>expanded'.
     push_copies_part000 B off kfs expanded'))"

function cycle_loop_part000 ::
  "builtins \<Rightarrow> jsv list \<Rightarrow> jsnum \<Rightarrow> jsnum \<Rightarrow> nat \<Rightarrow> jsv list \<Rightarrow> err + jsv list" where
  "cycle_loop_part000 B kfs cycleDur cycles c expanded =
     (if kfs \<noteq> [] \<and> num_lt (Fin (of_nat c)) cycles
      then (case push_copies_part000 B (num_mul (Fin (of_nat c)) cycleDur) kfs expanded of
              Inl e \<Rightarrow> Inl e
            | Inr expanded' \<Rightarrow> cycle_loop_part000 B kfs cycleDur cycles (c + 1) expanded')
      else Inr expanded)"
  by pat_completeness auto
termination
proof (relation "measure (\<lambda>(B, kfs, cycleDur, cycles, c, expanded).
                   max_array_length - length expanded)")
  show "wf (measure (\<lambda>(B, kfs, cycleDur, cycles, c, expanded).
                   max_array_length - length expanded))"
    by simp
next
  fix B :: builtins and kfs :: "jsv list" and cycleDur cycles :: jsnum and c :: nat
    and expanded x2 :: "jsv list"
  assume enter: "kfs \<noteq> [] \<and> num_lt (Fin (of_nat c)) cycles"
    and push: "push_copies_part000 B (num_mul (Fin (of_nat c)) cycleDur) kfs expanded = Inr x2"
  have grow: "push_copies_part000 B off ks e = Inr e' \<Longrightarrow>
              length e' = length e + length ks \<and> (ks \<noteq> [] \<longrightarrow> length e' \<le> max_array_length)"
    for off ks e e'
  proof (induction ks arbitrary: e)
    case Nil
    then show ?case by simp
  next
    case (Cons kf ks)
    from Cons.prems obtain copy e1 where
      e1: "array_push e copy = Inr e1" and rest: "push_copies_part000 B off ks e1 = Inr e'"
      by (cases "shifted_copy_part000 B off kf"; cases "array_push e (projr (shifted_copy_part000 B off kf))")
         (auto simp: and_then_def)
    from e1 have l1: "length e1 = length e + 1" "length e1 \<le> max_array_length"
      by (auto simp: array_push_def split: if_splits)
    from Cons.IH [OF rest] l1 show ?case by (cases ks) auto
  qed
  from grow [OF push] enter
  have "length expanded < length x2" "length x2 \<le> max_array_length"
    by (cases kfs; simp)+
  then show "((B, kfs, cycleDur, cycles, c + 1, x2), (B, kfs, cycleDur, cycles, c, expanded))
        \<in> measure (\<lambda>(B, kfs, cycleDur, cycles, c, expanded).
                   max_array_length - length expanded)"
    by simp
qed

declare cycle_loop_part000.simps [simp del]

definition expand_keyframes_part000 :: "builtins \<Rightarrow> jsv \<Rightarrow> jsv \<Rightarrow> jsv list \<Rightarrow> err + jsv" where
  "expand_keyframes_part000 B layer tm ks =
     (if length ks < 2 then Inr layer else
      and_then (get_prop (ks ! (length ks - 1)) ''t'') (\<lambda>t_last.
      and_then (get_prop (ks ! 0) ''t'') (\<lambda>t_first.
      and_then (js_sub B t_last t_first) (\<lambda>cycleDur.
      if num_le cycleDur (Fin 0) then Inr layer else
      and_then (get_prop layer ''op'') (\<lambda>op.
      and_then (get_prop layer ''ip'') (\<lambda>ip.
      and_then (js_sub B (js_or op (JNum (Fin 900))) (js_or ip (JNum (Fin 0)))) (\<lambda>dur.
      let cycles = num_add (num_ceil (num_div dur cycleDur)) (Fin 1) in
      and_then (cycle_loop_part000 B ks cycleDur cycles 0 []) (\<lambda>expanded.
      and_then (set_prop tm ''k'' (JArr expanded [])) (\<lambda>tm1.
      and_then (delete_prop tm1 ''x'') (\<lambda>tm2.
      set_prop layer ''tm'' tm2))))))))))"

definition expand_layer_part000 :: "builtins \<Rightarrow> jsv \<Rightarrow> err + jsv" where
  "expand_layer_part000 B layer =
     and_then (get_prop layer ''tm'') (\<lambda>tm.
     if \<not> truthy tm then Inr layer else
     and_then (get_prop tm ''x'') (\<lambda>x.
     if \<not> truthy x then Inr layer else
     and_then (includes_loopOut x) (\<lambda>has.
     if \<not> has then Inr layer else
     and_then (get_prop tm ''k'') (\<lambda>kfs.
     case kfs of
       JArr ks ps \<Rightarrow> expand_keyframes_part000 B layer tm ks
     | _ \<Rightarrow> Inr layer))))"

fun walk_part000 :: "builtins \<Rightarrow> jsv \<Rightarrow> err + jsv" where
  "walk_part000 B (JArr layers ps) =
     and_then (for_each (expand_layer_part000 B) layers) (\<lambda>ls. Inr (JArr ls ps))"
| "walk_part000 B v = Inr v"

definition walk_asset_part000 :: "builtins \<Rightarrow> jsv \<Rightarrow> err + jsv" where
  "walk_asset_part000 B a =
     and_then (get_prop a ''layers'') (\<lambda>ls.
     and_then (walk_part000 B ls) (\<lambda>ls'. Inr (put_back a ''layers'' ls')))"

definition expandTmCycles_part000 :: "builtins \<Rightarrow> jsv \<Rightarrow> err + jsv" where
  "expandTmCycles_part000 B data =
     and_then (get_prop data ''layers'') (\<lambda>layers.
     and_then (walk_part000 B layers) (\<lambda>layers'.
     let data1 = put_back data ''layers'' layers' in
     and_then (get_prop data1 ''assets'') (\<lambda>assets.
     case assets of
       JArr as ps \<Rightarrow>
         and_then (for_each (walk_asset_part000 B) as)
           (\<lambda>as'. Inr (put_back data1 ''assets'' (JArr as' ps)))
     | _ \<Rightarrow> Inr data1)))"

section \<open>stripRemainingExpressions\<close>

text \<open>
  \<^verbatim>\<open>stripRemainingExpressions\<close> compares objects by identity (the \<^verbatim>\<open>Set\<close> of visited
  objects), so its model works on a store: an object or array lives at an address, and a
  value is a primitive or a reference to an address. The store is a list and an address an
  index into it. A decoded JSON document is a store in which every address is referenced
  once; the function itself is defined on every store, cyclic or shared.
\<close>

datatype hval = HUndefined | HNull | HBool bool | HNum jsnum | HStr string | HRef nat

datatype hobj = HArr "hval list" | HObj "(string \<times> hval) list"

type_synonym heap = "hobj list"

text \<open>
  \<^verbatim>\<open>if ('x' in obj && typeof obj.x === 'string') delete obj.x\<close>; on an array the guard
  \<^verbatim>\<open>!Array.isArray(obj)\<close> of the revisit branch makes it the identity.
\<close>

fun strip_x :: "hobj \<Rightarrow> hobj" where
  "strip_x (HArr items) = HArr items"
| "strip_x (HObj fs) =
     (case map_of fs ''x'' of
        Some (HStr s) \<Rightarrow> HObj (AList.delete ''x'' fs)
      | _ \<Rightarrow> HObj fs)"

text \<open>\<^verbatim>\<open>forEach\<close> threading the store and the visited set; \<open>None\<close> is "out of fuel".\<close>

fun for_each_state :: "('s \<Rightarrow> 'a \<Rightarrow> 's option) \<Rightarrow> 's \<Rightarrow> 'a list \<Rightarrow> 's option" where
  "for_each_state f s [] = Some s"
| "for_each_state f s (x # xs) =
     (case f s x of None \<Rightarrow> None | Some s' \<Rightarrow> for_each_state f s' xs)"

text \<open>\<^verbatim>\<open>Object.values\<close>: the own property values in order (for an array, its elements).\<close>

fun object_values :: "hobj \<Rightarrow> hval list" where
  "object_values (HArr items) = items"
| "object_values (HObj fs) = map snd fs"

text \<open>
  The function recurses through the object graph, so the model carries fuel: the first
  argument bounds the depth of the call stack, and \<open>None\<close> means the bound was reached. A
  primitive (\<^verbatim>\<open>!obj || typeof obj !== 'object'\<close>) returns at once. An address outside the
  store does not occur in JavaScript; the model returns without change there.
\<close>

fun stripRemainingExpressions ::
  "nat \<Rightarrow> heap \<times> nat set \<Rightarrow> hval \<Rightarrow> (heap \<times> nat set) option" where
  "stripRemainingExpressions 0 st obj = None"
| "stripRemainingExpressions (Suc n) (h, seen) (HRef a) =
     (if length h \<le> a then Some (h, seen)
      else if a \<in> seen then Some (h[a := strip_x (h ! a)], seen)
      else
        (case h ! a of
           HArr items \<Rightarrow>
             for_each_state (stripRemainingExpressions n) (h, insert a seen) items
         | HObj fs \<Rightarrow>
             (let h' = h[a := strip_x (HObj fs)]
              in for_each_state (stripRemainingExpressions n) (h', insert a seen)
                   (object_values (h' ! a)))))"
| "stripRemainingExpressions (Suc n) st v = Some st"

text \<open>
  A store with a cycle (object 0 refers to itself and to array 1, which refers back),
  sharing (object 2 is reached from 0 and from 1), an \<^verbatim>\<open>x\<close> that holds an object, and an
  object that is not reachable from object 0.
\<close>

definition cyclic_heap :: heap where
  "cyclic_heap =
     [HObj [(''x'', HStr ''wiggle(1, 2)''), (''self'', HRef 0), (''ks'', HRef 1), (''p'', HRef 2)],
      HArr [HRef 2, HRef 0, HNum (Fin 1)],
      HObj [(''x'', HRef 3), (''a'', HNum (Fin 1))],
      HObj [(''k'', HNum (Fin 0)), (''x'', HStr ''time'')],
      HObj [(''x'', HStr ''unreachable'')]]"

text \<open>
  Vocabulary of the claims: an object without a string-valued \<^verbatim>\<open>x\<close>; the addresses an
  object refers to; the addresses reachable from a value; a store that differs from another
  only by applications of \<open>strip_x\<close>; and the invariant of the traversal (every newly
  visited object is stripped and refers only to visited objects).
\<close>

fun no_string_x :: "hobj \<Rightarrow> bool" where
  "no_string_x (HArr items) = True"
| "no_string_x (HObj fs) = (case map_of fs ''x'' of Some (HStr s) \<Rightarrow> False | _ \<Rightarrow> True)"

fun refs_of :: "hobj \<Rightarrow> nat set" where
  "refs_of (HArr items) = {a. HRef a \<in> set items}"
| "refs_of (HObj fs) = {a. \<exists>k. map_of fs k = Some (HRef a)}"

inductive_set reach :: "heap \<Rightarrow> hval \<Rightarrow> nat set" for h :: heap and v :: hval where
  root: "v = HRef a \<Longrightarrow> a < length h \<Longrightarrow> a \<in> reach h v"
| step: "a \<in> reach h v \<Longrightarrow> b \<in> refs_of (h ! a) \<Longrightarrow> b < length h \<Longrightarrow> b \<in> reach h v"

definition stripped_of :: "heap \<Rightarrow> heap \<Rightarrow> bool" where
  "stripped_of h h' =
     (length h' = length h \<and> (\<forall>a<length h. h' ! a = h ! a \<or> h' ! a = strip_x (h ! a)))"

definition closed_new :: "heap \<Rightarrow> nat set \<Rightarrow> heap \<Rightarrow> nat set \<Rightarrow> bool" where
  "closed_new h seen h' seen' =
     (\<forall>a\<in>seen' - seen.
        a < length h \<and> no_string_x (h' ! a) \<and> (\<forall>b\<in>refs_of (h' ! a). b < length h \<longrightarrow> b \<in> seen'))"

definition unseen :: "heap \<Rightarrow> nat set \<Rightarrow> nat set" where
  "unseen h S = {a. a < length h \<and> a \<notin> S}"

definition cyclic_stripped :: heap where
  "cyclic_stripped =
     [HObj [(''self'', HRef 0), (''ks'', HRef 1), (''p'', HRef 2)],
      HArr [HRef 2, HRef 0, HNum (Fin 1)],
      HObj [(''x'', HRef 3), (''a'', HNum (Fin 1))],
      HObj [(''k'', HNum (Fin 0))],
      HObj [(''x'', HStr ''unreachable'')]]"

section \<open>Lemmas about the expansion\<close>

lemma and_then_Inr [simp]: "and_then (Inr v) f = f v"
  by (simp add: and_then_def)

lemma and_then_Inl [simp]: "and_then (Inl e) f = Inl e"
  by (simp add: and_then_def)

lemma and_then_eq_Inr: "and_then m f = Inr y \<longleftrightarrow> (\<exists>v. m = Inr v \<and> f v = Inr y)"
  by (cases m) simp_all

lemma floor_rat_numeral [simp]:
  "\<lfloor>(numeral a :: rat) / numeral b\<rfloor> = numeral a div numeral b"
  using floor_divide_of_int_eq [of "numeral a" "numeral b", where ?'a = rat] by simp

lemma ceiling_rat_numeral [simp]:
  "\<lceil>(numeral a :: rat) / numeral b\<rceil> = - (- numeral a div numeral b)"
  using ceiling_divide_eq_div [of "numeral a" "numeral b", where ?'a = rat] by simp

lemma floor_rat_neg_numeral [simp]:
  "\<lfloor>- ((numeral a :: rat) / numeral b)\<rfloor> = - numeral a div numeral b"
  using floor_divide_of_int_eq [of "- numeral a" "numeral b", where ?'a = rat] by simp

lemma ceiling_rat_neg_numeral [simp]:
  "\<lceil>- ((numeral a :: rat) / numeral b)\<rceil> = - (numeral a div numeral b)"
  using ceiling_divide_eq_div [of "- numeral a" "numeral b", where ?'a = rat] by simp

lemma scale_up: "a < 2 ^ 52 \<Longrightarrow> - 1074 < q \<Longrightarrow> scale a q = scale (2 * a) (q - 1)"
  by (subst scale.simps) simp

lemma scale_down: "2 ^ 53 \<le> a \<Longrightarrow> q < 972 \<Longrightarrow> scale a q = scale (a / 2) (q + 1)"
  by (subst scale.simps) simp

lemma scale_stop:
  "2 ^ 52 \<le> a \<or> q \<le> - 1074 \<Longrightarrow> a < 2 ^ 53 \<or> 972 \<le> q \<Longrightarrow> scale a q = (a, q)"
  by (subst scale.simps) auto

lemmas round_simps =
  round64_def round_pos_def scale_up scale_down scale_stop round_half_even_def pow2_def

lemma scale_small:
  assumes "0 < a" and "a < 2 ^ 53"
  shows "\<exists>k. scale a q = (a * 2 ^ k, q - int k)"
  using assms
proof (induction a q rule: scale.induct)
  case (1 a q)
  show ?case
  proof (cases "a < 2 ^ 52 \<and> - 1074 < q")
    case True
    then have "0 < 2 * a" "2 * a < 2 ^ 53" using "1.prems" by simp_all
    from "1.IH"(1) [OF True this] obtain k where
      k: "scale (2 * a) (q - 1) = (2 * a * 2 ^ k, q - 1 - int k)" by blast
    have "scale a q = (a * 2 ^ Suc k, q - int (Suc k))"
      using True k by (subst scale.simps) (simp add: algebra_simps)
    then show ?thesis by blast
  next
    case False
    then have "scale a q = (a * 2 ^ 0, q - int 0)"
      using "1.prems" by (subst scale.simps) auto
    then show ?thesis by blast
  qed
qed

lemma round_half_even_of_int [simp]: "round_half_even (of_int z) = z"
  by (simp add: round_half_even_def)

lemma round_pos_whole:
  assumes "0 < z" and "z < 2 ^ 53"
  shows "round_pos (of_int z) = Fin (of_int z)"
proof -
  have "(0::rat) < of_int z" "(of_int z :: rat) < 2 ^ 53"
    using assms by (simp_all add: of_int_less_numeral_power_cancel_iff)
  from scale_small [OF this, of 0] obtain k where
    k: "scale (of_int z) 0 = (of_int z * 2 ^ k, 0 - int k)" by blast
  have m: "(of_int z :: rat) * 2 ^ k = of_int (z * 2 ^ k)" by simp
  have p: "pow2 (0 - int k) = 1 / 2 ^ k" by (simp add: pow2_def)
  have v: "of_int (round_half_even (of_int z * 2 ^ k)) * pow2 (0 - int k) = (of_int z :: rat)"
    unfolding m round_half_even_of_int p by simp
  have "(of_int z :: rat) < 2 ^ 53" by fact
  also have "(2::rat) ^ 53 < 2 ^ 1024" by simp
  finally have lt: "\<not> 2 ^ 1024 \<le> (of_int z :: rat)" by simp
  have "round_pos (of_int z) = (if 2 ^ 1024 \<le> (of_int z :: rat) then PInf else Fin (of_int z))"
    unfolding round_pos_def k prod.case v ..
  then show ?thesis using lt by simp
qed

lemma round_pos_top: "round_pos (2 ^ 53) = Fin (2 ^ 53)"
  by (simp add: round_simps)

lemma round64_whole:
  assumes "\<bar>z\<bar> \<le> 2 ^ 53"
  shows "round64 (of_int z) = Fin (of_int z)"
proof -
  have pos: "round_pos (of_int y) = Fin (of_int y)" if "0 < y" "y \<le> 2 ^ 53" for y :: int
  proof (cases "y = 2 ^ 53")
    case True
    then show ?thesis using round_pos_top by simp
  next
    case False
    with that show ?thesis by (intro round_pos_whole) simp_all
  qed
  consider "z = 0" | "0 < z" | "z < 0" by linarith
  then show ?thesis
  proof cases
    case 1
    then show ?thesis by (simp add: round64_def)
  next
    case 2
    with assms pos [of z] show ?thesis by (simp add: round64_def)
  next
    case 3
    with assms pos [of "- z"] show ?thesis by (simp add: round64_def)
  qed
qed

lemma round64_frame:
  assumes "of_int \<lfloor>r\<rfloor> = r" and "\<bar>r\<bar> \<le> 2 ^ 53"
  shows "round64 r = Fin r"
proof -
  have "\<bar>(of_int \<lfloor>r\<rfloor> :: rat)\<bar> \<le> 2 ^ 53" using assms(2) by (simp only: assms(1))
  then have "\<bar>\<lfloor>r\<rfloor>\<bar> \<le> 2 ^ 53"
    by (metis of_int_abs of_int_le_numeral_power_cancel_iff)
  from round64_whole [OF this] assms(1) show ?thesis by simp
qed

lemma json_roundtrip_id: "json_value v \<Longrightarrow> json_roundtrip v = v"
proof (induction v rule: json_roundtrip.induct)
  case (7 xs ps)
  have "map (\<lambda>x. if json_roundtrip x = JUndefined then JNull else json_roundtrip x) xs = xs"
  proof (rule map_idI)
    fix x assume x: "x \<in> set xs"
    then have jv: "json_value x" using "7.prems" by simp
    then have "json_roundtrip x = x" using "7.IH"(1) x by simp
    moreover have "x \<noteq> JUndefined" using jv by auto
    ultimately show "(if json_roundtrip x = JUndefined then JNull else json_roundtrip x) = x"
      by simp
  qed
  then show ?case using "7.prems" by simp
next
  case (8 fs)
  have "map (\<lambda>kv. (fst kv, json_roundtrip (snd kv))) fs = fs"
    using "8.IH" "8.prems" by (intro map_idI) auto
  moreover have "filter (\<lambda>kv. snd kv \<noteq> JUndefined) fs = fs"
    using "8.prems" by (intro filter_True) auto
  ultimately show ?case by simp
qed auto

lemma keyframe_shape:
  assumes "keyframe kf"
  shows "\<exists>fs r. kf = JObj fs \<and> map_of fs ''t'' = Some (JNum (Fin r)) \<and> double r"
proof (cases kf)
  case (JObj fs)
  show ?thesis
  proof (cases "map_of fs ''t''")
    case None
    then show ?thesis using assms JObj by (simp add: keyframe_def)
  next
    case (Some v)
    show ?thesis
    proof (cases v)
      case (JNum n)
      then show ?thesis using assms JObj Some by (cases n) (simp_all add: keyframe_def)
    qed (use assms JObj Some in \<open>simp_all add: keyframe_def\<close>)
  qed
qed (use assms in \<open>simp_all add: keyframe_def\<close>)

lemma keyframeD:
  assumes "keyframe kf"
  obtains fs r where "kf = JObj fs" and "map_of fs ''t'' = Some (JNum (Fin r))" and "double r"
    and "json_value kf"
  using keyframe_shape [OF assms] assms by (auto simp: keyframe_def)

lemma time_of_keyframe:
  assumes "keyframe kf"
  obtains r where "time_of kf = Fin r" and "double r"
  using assms by (auto elim!: keyframeD)

lemma shifted_copy_keyframe:
  assumes "keyframe kf"
  shows "shifted_copy B off kf = Inr (with_time kf (num_add (time_of kf) off))"
proof -
  from assms obtain fs r where kf: "kf = JObj fs" and t: "map_of fs ''t'' = Some (JNum (Fin r))"
    and jv: "json_value kf"
    by (rule keyframeD)
  have "json_roundtrip kf = kf" using jv by (rule json_roundtrip_id)
  then show ?thesis
    using kf t by (simp add: shifted_copy_def json_clone_def js_add_def)
qed

lemma push_copies_fit:
  assumes "\<forall>kf\<in>set ks. \<exists>c. shifted_copy B off kf = Inr c"
    and "length acc \<le> max_array_length"
  shows "push_copies B off ks acc =
         (if length acc + length ks \<le> max_array_length
          then Inr (acc @ map (\<lambda>kf. projr (shifted_copy B off kf)) ks)
          else Inl RangeError)"
  using assms
proof (induction ks arbitrary: acc)
  case Nil
  then show ?case by simp
next
  case (Cons kf ks)
  from Cons.prems obtain c where c: "shifted_copy B off kf = Inr c" by auto
  show ?case
  proof (cases "length acc < max_array_length")
    case True
    then have "push_copies B off (kf # ks) acc = push_copies B off ks (acc @ [c])"
      by (simp add: c array_push_def)
    also have "\<dots> = (if length (acc @ [c]) + length ks \<le> max_array_length
          then Inr ((acc @ [c]) @ map (\<lambda>kf. projr (shifted_copy B off kf)) ks)
          else Inl RangeError)"
      using Cons.prems True by (intro Cons.IH) simp_all
    finally show ?thesis by (simp add: c)
  next
    case False
    then have "\<not> length acc + length (kf # ks) \<le> max_array_length" by simp
    then show ?thesis using False by (simp add: c array_push_def)
  qed
qed

lemma enter_iff:
  "num_lt (Fin (of_nat c)) cycles \<longleftrightarrow> cycles = PInf \<or> c < passes cycles"
proof (cases cycles)
  case (Fin m)
  have "of_nat c < m \<longleftrightarrow> int c < \<lceil>m\<rceil>"
    using less_ceiling_iff [of "int c" m] by simp
  then show ?thesis using Fin by auto
qed simp_all

lemma cycle_loop_fit:
  assumes "\<forall>off. \<forall>kf\<in>set ks. \<exists>c. shifted_copy B off kf = Inr c"
    and "ks \<noteq> []" and "length acc \<le> max_array_length"
  shows "cycle_loop B ks cd cycles c acc =
         (if cycles = PInf \<or> max_array_length < length acc + (passes cycles - c) * length ks
          then Inl RangeError
          else Inr (acc @ concat (map (\<lambda>i. map (\<lambda>kf. projr (shifted_copy B
                                        (num_mul (Fin (of_nat i)) cd) kf)) ks)
                                      [c..<passes cycles])))"
  using assms
proof (induction B ks cd cycles c acc rule: cycle_loop.induct)
  case (1 B kfs cycleDur cycles c expanded)
  note ok = "1.prems"(1) and ne = "1.prems"(2) and small = "1.prems"(3)
  let ?copy = "\<lambda>i. map (\<lambda>kf. projr (shifted_copy B (num_mul (Fin (of_nat i)) cycleDur) kf)) kfs"
  show ?case
  proof (cases "num_lt (Fin (of_nat c)) cycles")
    case False
    then have np: "cycles \<noteq> PInf" and pc: "passes cycles \<le> c"
      by (simp_all add: enter_iff)
    then have "[c..<passes cycles] = []" "passes cycles - c = 0" by simp_all
    then show ?thesis
      using False np small by (subst cycle_loop.simps) simp
  next
    case True
    have push: "push_copies B (num_mul (Fin (of_nat c)) cycleDur) kfs expanded =
         (if length expanded + length kfs \<le> max_array_length
          then Inr (expanded @ ?copy c) else Inl RangeError)"
      using ok small by (intro push_copies_fit) simp_all
    have more: "cycles \<noteq> PInf \<Longrightarrow>
                (passes cycles - c) * length kfs = length kfs + (passes cycles - (c + 1)) * length kfs"
    proof -
      assume "cycles \<noteq> PInf"
      with True have "c < passes cycles" by (simp add: enter_iff)
      then have "passes cycles - c = Suc (passes cycles - (c + 1))" by simp
      then show ?thesis by simp
    qed
    show ?thesis
    proof (cases "length expanded + length kfs \<le> max_array_length")
      case fits: True
      let ?e = "expanded @ ?copy c"
      have pe: "push_copies B (num_mul (Fin (of_nat c)) cycleDur) kfs expanded = Inr ?e"
        using push fits by simp
      have le: "length ?e \<le> max_array_length" using fits by simp
      have ih: "cycle_loop B kfs cycleDur cycles (c + 1) ?e =
         (if cycles = PInf \<or> max_array_length < length ?e + (passes cycles - (c + 1)) * length kfs
          then Inl RangeError
          else Inr (?e @ concat (map ?copy [c + 1..<passes cycles])))"
        using "1.IH" [OF conjI [OF ne True] pe ok ne le] .
      have unf: "cycle_loop B kfs cycleDur cycles c expanded =
                 cycle_loop B kfs cycleDur cycles (c + 1) ?e"
        using True ne pe by (subst cycle_loop.simps) simp
      show ?thesis
      proof (cases "cycles = PInf")
        case True
        then show ?thesis unfolding unf ih by simp
      next
        case False
        with \<open>num_lt (Fin (of_nat c)) cycles\<close> have "c < passes cycles" by (simp add: enter_iff)
        then have upt: "[c..<passes cycles] = c # [c + 1..<passes cycles]"
          by (simp add: upt_conv_Cons)
        show ?thesis
          unfolding unf ih upt using False more [OF False] by simp
      qed
    next
      case False
      then have pe: "push_copies B (num_mul (Fin (of_nat c)) cycleDur) kfs expanded = Inl RangeError"
        using push by simp
      have "cycle_loop B kfs cycleDur cycles c expanded = Inl RangeError"
        using True ne pe by (subst cycle_loop.simps) simp
      moreover have "cycles = PInf \<or>
          max_array_length < length expanded + (passes cycles - c) * length kfs"
        using False more by (cases "cycles = PInf") simp_all
      ultimately show ?thesis by simp
    qed
  qed
qed

lemma cycle_loop_keyframes:
  assumes kfs: "\<forall>kf\<in>set ks. keyframe kf" and ne: "ks \<noteq> []"
  shows "cycle_loop B ks cd cycles 0 [] =
         (if cycles = PInf \<or> max_array_length < passes cycles * length ks
          then Inl RangeError
          else Inr (expansion ks cd (passes cycles)))"
proof -
  have ok: "\<forall>off. \<forall>kf\<in>set ks. \<exists>c. shifted_copy B off kf = Inr c"
    using kfs by (simp add: shifted_copy_keyframe)
  have copies: "map (\<lambda>kf. projr (shifted_copy B (num_mul (Fin (of_nat i)) cd) kf)) ks
                = map (shifted cd i) ks" for i
    using kfs by (intro map_cong refl) (simp add: shifted_copy_keyframe shifted_def)
  show ?thesis
    using cycle_loop_fit [OF ok ne, of "[]" cd cycles 0]
    by (simp add: copies expansion_def)
qed

lemma str_includes_nonempty: "str_includes s (p # ps) \<Longrightarrow> s \<noteq> []"
  by (cases s) auto

lemma frame_or_number:
  assumes "frame_or B fs k d = Inr n"
  shows "to_number B (js_or (case map_of fs k of None \<Rightarrow> JUndefined | Some v \<Rightarrow> v) (JNum (Fin d)))
         = Inr n"
  using assms by (auto simp: frame_or_def js_or_def split: option.splits if_splits)

lemma keyframe_get_t: "keyframe kf \<Longrightarrow> get_prop kf ''t'' = Inr (JNum (time_of kf))"
  by (erule keyframeD) simp

lemma expand_layer_eligible:
  assumes tm: "map_of lf ''tm'' = Some (JObj tmf)"
    and x: "map_of tmf ''x'' = Some (JStr s)" and marker: "str_includes s ''loopOut''"
    and k: "map_of tmf ''k'' = Some (JArr ks ps)" and len: "2 \<le> length ks"
    and kfs: "\<forall>kf\<in>set ks. keyframe kf"
    and cd: "num_sub (time_of (last ks)) (time_of (hd ks)) = Fin cd" and pos: "0 < cd"
    and op: "frame_or B lf ''op'' 900 = Inr op'" and ip: "frame_or B lf ''ip'' 0 = Inr ip'"
  shows "expand_layer B (JObj lf) =
         (if cycle_count op' ip' (Fin cd) = PInf
             \<or> max_array_length < passes (cycle_count op' ip' (Fin cd)) * length ks
          then Inl RangeError
          else Inr (JObj (AList.update ''tm''
                 (JObj (AList.delete ''x''
                    (AList.update ''k''
                       (JArr (expansion ks (Fin cd) (passes (cycle_count op' ip' (Fin cd)))) [])
                       tmf)))
                 lf)))"
proof -
  have ne: "ks \<noteq> []" using len by auto
  have s_ne: "s \<noteq> []" using marker by (rule str_includes_nonempty)
  have kl: "keyframe (last ks)" and kh: "keyframe (hd ks)" using kfs ne by auto
  have last_nth: "ks ! (length ks - Suc 0) = last ks" using ne by (simp add: last_conv_nth)
  have hd_nth: "ks ! 0 = hd ks" using ne by (simp add: hd_conv_nth)
  have t_last: "get_prop (ks ! (length ks - Suc 0)) ''t'' = Inr (JNum (time_of (last ks)))"
    using keyframe_get_t [OF kl] by (simp add: last_nth)
  have t_first: "get_prop (ks ! 0) ''t'' = Inr (JNum (time_of (hd ks)))"
    using keyframe_get_t [OF kh] by (simp add: hd_nth)
  have dur: "js_sub B (js_or (case map_of lf ''op'' of None \<Rightarrow> JUndefined | Some v \<Rightarrow> v) (JNum (Fin 900)))
                    (js_or (case map_of lf ''ip'' of None \<Rightarrow> JUndefined | Some v \<Rightarrow> v) (JNum (Fin 0)))
             = Inr (num_sub op' ip')"
    using frame_or_number [OF op] frame_or_number [OF ip] by (simp add: js_sub_def)
  have sub: "js_sub B (JNum (time_of (last ks))) (JNum (time_of (hd ks))) = Inr (Fin cd)"
    by (simp add: js_sub_def cd)
  have guard: "\<not> num_le (Fin cd) (Fin 0)" using pos by simp
  have loop: "cycle_loop B ks (Fin cd) (cycle_count op' ip' (Fin cd)) 0 [] =
         (if cycle_count op' ip' (Fin cd) = PInf
             \<or> max_array_length < passes (cycle_count op' ip' (Fin cd)) * length ks
          then Inl RangeError
          else Inr (expansion ks (Fin cd) (passes (cycle_count op' ip' (Fin cd)))))"
    using kfs ne by (rule cycle_loop_keyframes)
  have ek: "expand_keyframes B (JObj lf) (JObj tmf) ks =
         and_then (cycle_loop B ks (Fin cd) (cycle_count op' ip' (Fin cd)) 0 []) (\<lambda>expanded.
         and_then (set_prop (JObj tmf) ''k'' (JArr expanded [])) (\<lambda>tm1.
         and_then (delete_prop tm1 ''x'') (\<lambda>tm2.
         set_prop (JObj lf) ''tm'' tm2)))"
    unfolding expand_keyframes_def Let_def
    using len pos by (simp add: t_last t_first sub dur cycle_count_def)
  have "expand_layer B (JObj lf) = expand_keyframes B (JObj lf) (JObj tmf) ks"
    unfolding expand_layer_def using tm x k s_ne marker by simp
  then show ?thesis
    unfolding ek loop by simp
qed

lemma expansion_0 [simp]: "expansion ks cd 0 = []"
  by (simp add: expansion_def)

lemma expansion_Suc: "expansion ks cd (Suc n) = expansion ks cd n @ map (shifted cd n) ks"
  by (simp add: expansion_def)

lemma length_expansion: "length (expansion ks cd n) = n * length ks"
  by (induction n) (simp_all add: expansion_Suc)

lemma nth_expansion:
  "c < n \<Longrightarrow> i < length ks \<Longrightarrow> expansion ks cd n ! (c * length ks + i) = shifted cd c (ks ! i)"
proof (induction n)
  case 0
  then show ?case by simp
next
  case (Suc n)
  show ?case
  proof (cases "c < n")
    case True
    then have "Suc c \<le> n" by simp
    then have "Suc c * length ks \<le> n * length ks" by (rule mult_le_mono1)
    then have "c * length ks + i < length (expansion ks cd n)"
      using Suc.prems(2) by (simp add: length_expansion)
    then show ?thesis
      using Suc.IH [OF True Suc.prems(2)] by (simp add: expansion_Suc nth_append)
  next
    case False
    then have "c = n" using Suc.prems(1) by simp
    then show ?thesis
      using Suc.prems(2) by (simp add: expansion_Suc nth_append length_expansion)
  qed
qed

lemma hd_expansion:
  assumes "ks \<noteq> []" and "0 < n"
  shows "hd (expansion ks cd n) = shifted cd 0 (hd ks)"
proof -
  have "expansion ks cd n ! (0 * length ks + 0) = shifted cd 0 (ks ! 0)"
    using assms by (intro nth_expansion) simp_all
  moreover have "expansion ks cd n \<noteq> []"
    using assms length_expansion [of ks cd n] by (metis length_0_conv mult_is_0 less_numeral_extra(3))
  ultimately show ?thesis
    using assms(1) by (simp add: hd_conv_nth)
qed

lemma time_of_with_time: "keyframe kf \<Longrightarrow> time_of (with_time kf n) = n"
  by (erule keyframeD) (simp add: update_conv')

lemma time_of_shifted:
  "keyframe kf \<Longrightarrow> time_of (shifted cd c kf) = num_add (time_of kf) (num_mul (Fin (of_nat c)) cd)"
  by (simp add: shifted_def time_of_with_time)

lemma time_of_first_copy:
  assumes "keyframe kf"
  shows "time_of (shifted (Fin cd) 0 kf) = time_of kf"
proof -
  from assms obtain r where r: "time_of kf = Fin r" "double r" by (rule time_of_keyframe)
  have "num_mul (Fin (of_nat 0)) (Fin cd) = Fin 0" by (simp add: round64_def)
  then show ?thesis
    using r by (simp add: time_of_shifted [OF assms] double_def)
qed

lemma sorted_shifted_blocks:
  fixes ts :: "rat list"
  assumes "sorted ts" and "ts \<noteq> []" and "cd = last ts - hd ts"
  shows "sorted (concat (map (\<lambda>c. map (\<lambda>t. t + of_nat c * cd) ts) [0..<n]))"
proof (induction n)
  case 0
  then show ?case by simp
next
  case (Suc n)
  have cd0: "0 \<le> cd"
    using assms by (metis diff_ge_0_iff_ge hd_conv_nth last_conv_nth le0 length_greater_0_conv
        sorted_iff_nth_mono diff_less zero_less_one less_or_eq_imp_le)
  have bounds: "hd ts \<le> t \<and> t \<le> last ts" if "t \<in> set ts" for t
  proof -
    from that obtain i where i: "i < length ts" "t = ts ! i" by (auto simp: in_set_conv_nth)
    have "ts ! 0 \<le> ts ! i" using assms(1) i(1) by (simp add: sorted_iff_nth_mono)
    moreover have "ts ! i \<le> ts ! (length ts - 1)"
      using assms(1) i(1) by (simp add: sorted_iff_nth_mono)
    ultimately show ?thesis
      using assms(2) i(2) by (simp add: hd_conv_nth last_conv_nth)
  qed
  have block: "sorted (map (\<lambda>t. t + of_nat n * cd) ts)"
    using assms(1) by (simp add: sorted_iff_nth_mono)
  have cross: "x \<le> y"
    if x: "x \<in> set (concat (map (\<lambda>c. map (\<lambda>t. t + of_nat c * cd) ts) [0..<n]))"
      and y: "y \<in> set (map (\<lambda>t. t + of_nat n * cd) ts)" for x y
  proof -
    from x obtain c t where c: "c < n" and t: "t \<in> set ts" and xe: "x = t + of_nat c * cd"
      by auto
    from y obtain u where u: "u \<in> set ts" and ye: "y = u + of_nat n * cd" by auto
    have "of_nat (Suc c) * cd \<le> of_nat n * cd"
      using c cd0 by (intro mult_right_mono) (simp_all add: Suc_leI)
    then have "of_nat c * cd + cd \<le> of_nat n * cd" by (simp add: algebra_simps)
    moreover have "t \<le> hd ts + cd" using bounds [OF t] assms(3) by simp
    moreover have "hd ts \<le> u" using bounds [OF u] by simp
    ultimately show ?thesis unfolding xe ye by linarith
  qed
  show ?case
    using Suc.IH block cross by (simp add: sorted_append)
qed

lemma whole_iff: "of_int \<lfloor>r\<rfloor> = r \<longleftrightarrow> r \<in> \<int>"
  by (metis Ints_of_int floor_of_int Ints_cases)

lemma round64_Ints: "r \<in> \<int> \<Longrightarrow> \<bar>r\<bar> \<le> 2 ^ 53 \<Longrightarrow> round64 r = Fin r"
  using round64_frame [of r] by (simp only: whole_iff)

lemma whole_frames_times:
  assumes kfs: "\<forall>kf\<in>set ks. keyframe kf" and ne: "ks \<noteq> []"
    and whole: "whole_frames ks cd n"
    and cd: "num_sub (time_of (last ks)) (time_of (hd ks)) = Fin cd" and pos: "0 < cd"
  shows "\<exists>ts. map time_of ks = map Fin ts \<and> cd = last ts - hd ts
           \<and> map time_of (expansion ks (Fin cd) n)
               = map Fin (concat (map (\<lambda>c. map (\<lambda>t. t + of_nat c * cd) ts) [0..<n]))"
proof -
  define tr where "tr = (\<lambda>kf. case time_of kf of Fin r \<Rightarrow> r | _ \<Rightarrow> 0)"
  have tr: "time_of kf = Fin (tr kf) \<and> tr kf \<in> \<int> \<and> \<bar>tr kf\<bar> \<le> 2 ^ 52" if "kf \<in> set ks" for kf
  proof -
    from whole that have c: "case time_of kf of
         Fin r \<Rightarrow> of_int \<lfloor>r\<rfloor> = r \<and> \<bar>r\<bar> \<le> 2 ^ 52 | _ \<Rightarrow> False"
      unfolding whole_frames_def by blast
    then obtain r where r: "time_of kf = Fin r" by (cases "time_of kf") simp_all
    with c have "of_int \<lfloor>r\<rfloor> = r" "\<bar>r\<bar> \<le> 2 ^ 52" by simp_all
    then show ?thesis using r by (simp add: tr_def whole_iff [symmetric])
  qed
  have small: "of_nat n * cd \<le> 2 ^ 52" using whole by (simp add: whole_frames_def)
  have times: "map time_of ks = map Fin (map tr ks)"
    using tr by (simp add: comp_def)
  have hl: "hd ks \<in> set ks" "last ks \<in> set ks" using ne by simp_all
  have "\<bar>tr (last ks)\<bar> \<le> 2 ^ 52" "\<bar>tr (hd ks)\<bar> \<le> 2 ^ 52"
    using tr [OF hl(1)] tr [OF hl(2)] by simp_all
  then have "\<bar>tr (last ks) - tr (hd ks)\<bar> \<le> 2 ^ 52 + 2 ^ 52" by linarith
  then have diff: "tr (last ks) - tr (hd ks) \<in> \<int>" "\<bar>tr (last ks) - tr (hd ks)\<bar> \<le> 2 ^ 53"
    using tr [OF hl(1)] tr [OF hl(2)] by (simp_all add: Ints_diff)
  have "Fin cd = round64 (tr (last ks) - tr (hd ks))"
    using cd tr [OF hl(1)] tr [OF hl(2)] by (simp add: num_sub_def)
  also have "\<dots> = Fin (tr (last ks) - tr (hd ks))" using diff by (rule round64_Ints)
  finally have cd_eq: "cd = tr (last ks) - tr (hd ks)" by simp
  have cd_int: "cd \<in> \<int>" using diff(1) cd_eq by simp
  have shift: "time_of (shifted (Fin cd) c kf) = Fin (tr kf + of_nat c * cd)"
    if c: "c < n" and kf: "kf \<in> set ks" for c kf
  proof -
    have "of_nat c * cd \<le> of_nat n * cd"
      using c pos by (intro mult_right_mono) simp_all
    then have le: "of_nat c * cd \<le> 2 ^ 52" using small by simp
    have ge: "0 \<le> of_nat c * cd" using pos by simp
    have pi: "of_nat c * cd \<in> \<int>" using cd_int by (intro Ints_mult) simp_all
    have mul: "round64 (of_nat c * cd) = Fin (of_nat c * cd)"
      using round64_Ints [OF pi] le ge by simp
    have si: "tr kf + of_nat c * cd \<in> \<int>" using tr [OF kf] pi by (intro Ints_add) simp_all
    have "\<bar>tr kf\<bar> \<le> 2 ^ 52" using tr [OF kf] by simp
    then have "\<bar>tr kf + of_nat c * cd\<bar> \<le> 2 ^ 52 + 2 ^ 52" using le ge by linarith
    then have "\<bar>tr kf + of_nat c * cd\<bar> \<le> 2 ^ 53" by simp
    from round64_Ints [OF si this]
    have add: "round64 (tr kf + of_nat c * cd) = Fin (tr kf + of_nat c * cd)" .
    show ?thesis
      using kfs kf tr [OF kf] by (simp add: time_of_shifted mul add)
  qed
  have "map time_of (expansion ks (Fin cd) n)
        = concat (map (\<lambda>c. map (\<lambda>kf. time_of (shifted (Fin cd) c kf)) ks) [0..<n])"
    by (simp add: expansion_def map_concat comp_def)
  also have "\<dots> = concat (map (\<lambda>c. map (\<lambda>kf. Fin (tr kf + of_nat c * cd)) ks) [0..<n])"
    by (intro arg_cong [of _ _ concat] map_cong refl) (simp add: shift)
  also have "\<dots> = map Fin (concat (map (\<lambda>c. map (\<lambda>t. t + of_nat c * cd) (map tr ks)) [0..<n]))"
    by (simp add: map_concat comp_def)
  finally have exp: "map time_of (expansion ks (Fin cd) n)
        = map Fin (concat (map (\<lambda>c. map (\<lambda>t. t + of_nat c * cd) (map tr ks)) [0..<n]))" .
  have "cd = last (map tr ks) - hd (map tr ks)"
    using ne cd_eq by (simp add: last_map hd_map)
  with times exp show ?thesis by blast
qed

lemma sorted_Fin: "sorted_wrt num_le (map Fin ts) \<longleftrightarrow> sorted ts"
  by (simp add: sorted_wrt_map)

lemma sorted_expansion:
  assumes kfs: "\<forall>kf\<in>set ks. keyframe kf" and ne: "ks \<noteq> []"
    and srt: "times_sorted ks" and whole: "whole_frames ks cd n"
    and cd: "num_sub (time_of (last ks)) (time_of (hd ks)) = Fin cd" and pos: "0 < cd"
  shows "times_sorted (expansion ks (Fin cd) n)"
proof -
  from whole_frames_times [OF kfs ne whole cd pos] obtain ts where
    ts: "map time_of ks = map Fin ts" and cdt: "cd = last ts - hd ts"
    and ex: "map time_of (expansion ks (Fin cd) n)
               = map Fin (concat (map (\<lambda>c. map (\<lambda>t. t + of_nat c * cd) ts) [0..<n]))"
    by blast
  have "sorted ts" using srt by (simp add: times_sorted_def ts sorted_Fin)
  moreover have "ts \<noteq> []" using ts ne by auto
  ultimately have "sorted (concat (map (\<lambda>c. map (\<lambda>t. t + of_nat c * cd) ts) [0..<n]))"
    using cdt by (rule sorted_shifted_blocks)
  then show ?thesis by (simp add: times_sorted_def ex sorted_Fin)
qed

lemma for_each_Inr:
  "for_each f xs = Inr ys \<Longrightarrow> length ys = length xs \<and> (\<forall>i<length xs. f (xs ! i) = Inr (ys ! i))"
proof (induction xs arbitrary: ys)
  case Nil
  then show ?case by simp
next
  case (Cons x xs)
  from Cons.prems obtain y ys' where y: "f x = Inr y" and ys': "for_each f xs = Inr ys'"
    and ys: "ys = y # ys'"
    by (auto simp: and_then_eq_Inr)
  show ?case
    using Cons.IH [OF ys'] y ys by (auto simp: nth_Cons split: nat.splits)
qed

lemma get_put_back_same:
  "get_prop d k = Inr (JArr xs ps) \<Longrightarrow> get_prop (put_back d k v) k = Inr v"
  by (cases d) (auto simp: update_conv' split: option.splits)

lemma get_put_back_other:
  "k' \<noteq> k \<Longrightarrow> get_prop (put_back d k v) k' = get_prop d k'"
  by (cases d) (auto simp: update_conv' split: option.splits)

lemma layers_of_walked:
  assumes "layers_of v = Some ls" and "get_prop v ''layers'' = Inr lv" and "walk B lv = Inr lv'"
  shows "\<exists>ls'. layers_of (put_back v ''layers'' lv') = Some ls'
               \<and> for_each (expand_layer B) ls = Inr ls'"
proof -
  obtain ps where lv: "lv = JArr ls ps"
    using assms(1,2) by (auto simp: layers_of_def split: sum.splits jsv.splits)
  then obtain ls' where ls': "for_each (expand_layer B) ls = Inr ls'" and lv': "lv' = JArr ls' ps"
    using assms(3) by (auto simp: and_then_eq_Inr)
  have "get_prop (put_back v ''layers'' lv') ''layers'' = Inr lv'"
    using assms(2) lv by (simp add: get_put_back_same)
  then show ?thesis using ls' lv' by (simp add: layers_of_def)
qed

lemma expandTmCycles_layer_at:
  assumes run: "expandTmCycles B d = Inr d'" and at: "layer_at d p = Some l"
  shows "\<exists>l'. layer_at d' p = Some l' \<and> expand_layer B l = Inr l'"
proof -
  from run obtain lv lv' av where
    lv: "get_prop d ''layers'' = Inr lv" and lv': "walk B lv = Inr lv'"
    and av: "get_prop (put_back d ''layers'' lv') ''assets'' = Inr av"
    and rest: "(case av of
                  JArr as ps \<Rightarrow> and_then (for_each (walk_asset B) as)
                              (\<lambda>as'. Inr (put_back (put_back d ''layers'' lv') ''assets'' (JArr as' ps)))
                | _ \<Rightarrow> Inr (put_back d ''layers'' lv')) = Inr d'"
    by (auto simp: expandTmCycles_def and_then_eq_Inr Let_def)
  define d1 where "d1 = put_back d ''layers'' lv'"
  have av_d: "get_prop d ''assets'' = Inr av"
    using av by (simp add: get_put_back_other)
  have layers_d': "layers_of d' = layers_of d1"
  proof (cases "\<exists>as ps. av = JArr as ps")
    case True
    then obtain as ps as' where "av = JArr as ps"
      and "d' = put_back d1 ''assets'' (JArr as' ps)"
      using rest by (auto simp: and_then_eq_Inr d1_def)
    then show ?thesis by (simp add: layers_of_def get_put_back_other)
  next
    case False
    then have "d' = d1" using rest by (cases av) (simp_all add: d1_def)
    then show ?thesis by simp
  qed
  show ?thesis
  proof (cases p)
    case (Top i)
    with at obtain ls where ls: "layers_of d = Some ls" and i: "i < length ls" and l: "l = ls ! i"
      by (cases "layers_of d") (auto split: if_splits)
    from layers_of_walked [OF ls lv lv'] obtain ls' where
      ls': "layers_of d1 = Some ls'" and fe: "for_each (expand_layer B) ls = Inr ls'"
      by (auto simp: d1_def)
    from for_each_Inr [OF fe] i
    have "length ls' = length ls" "expand_layer B (ls ! i) = Inr (ls' ! i)"
      by auto
    then show ?thesis using Top ls' layers_d' i l by simp
  next
    case (InAsset j i)
    with at obtain as a ls where as: "assets_of d = Some as" and j: "j < length as"
      and a: "a = as ! j" and ls: "layers_of a = Some ls" and i: "i < length ls" and l: "l = ls ! i"
      by (cases "assets_of d"; cases "layers_of (the (assets_of d) ! j)")
         (auto split: if_splits option.splits)
    obtain ps where avas: "av = JArr as ps"
      using as av_d by (auto simp: assets_of_def split: sum.splits jsv.splits)
    with rest obtain as' where fe: "for_each (walk_asset B) as = Inr as'"
      and d': "d' = put_back d1 ''assets'' (JArr as' ps)"
      by (auto simp: and_then_eq_Inr d1_def)
    have "get_prop d1 ''assets'' = Inr (JArr as ps)" using av avas by (simp add: d1_def)
    then have as_d': "assets_of d' = Some as'"
      by (simp add: d' assets_of_def get_put_back_same)
    from for_each_Inr [OF fe] j have len: "length as' = length as"
      and wa: "walk_asset B a = Inr (as' ! j)" by (auto simp: a)
    from wa obtain alv alv' where alv: "get_prop a ''layers'' = Inr alv"
      and alv': "walk B alv = Inr alv'" and asj: "as' ! j = put_back a ''layers'' alv'"
      by (auto simp: walk_asset_def and_then_eq_Inr)
    from layers_of_walked [OF ls alv alv'] obtain ls' where
      ls': "layers_of (as' ! j) = Some ls'" and fel: "for_each (expand_layer B) ls = Inr ls'"
      by (auto simp: asj)
    from for_each_Inr [OF fel] i
    have "length ls' = length ls" "expand_layer B (ls ! i) = Inr (ls' ! i)"
      by auto
    then show ?thesis using InAsset as_d' len j ls' i l by simp
  qed
qed

lemma eligible_layer_at:
  assumes run: "expandTmCycles B d = Inr d'" and at: "layer_at d p = Some (JObj lf)"
    and tm: "map_of lf ''tm'' = Some (JObj tmf)"
    and x: "map_of tmf ''x'' = Some (JStr s)" and marker: "str_includes s ''loopOut''"
    and k: "map_of tmf ''k'' = Some (JArr ks ps)" and len: "2 \<le> length ks"
    and kfs: "\<forall>kf\<in>set ks. keyframe kf"
    and cd: "num_sub (time_of (last ks)) (time_of (hd ks)) = Fin cd" and pos: "0 < cd"
    and op: "frame_or B lf ''op'' 900 = Inr op'" and ip: "frame_or B lf ''ip'' 0 = Inr ip'"
  shows "cycle_count op' ip' (Fin cd) \<noteq> PInf
         \<and> passes (cycle_count op' ip' (Fin cd)) * length ks \<le> max_array_length
         \<and> layer_at d' p = Some (JObj (AList.update ''tm''
                 (JObj (AList.delete ''x''
                    (AList.update ''k''
                       (JArr (expansion ks (Fin cd) (passes (cycle_count op' ip' (Fin cd)))) [])
                       tmf)))
                 lf))"
proof -
  from expandTmCycles_layer_at [OF run at] obtain l' where
    l': "layer_at d' p = Some l'" and el: "expand_layer B (JObj lf) = Inr l'"
    by blast
  note e = expand_layer_eligible [OF tm x marker k len kfs cd pos op ip]
  show ?thesis
  proof (cases "cycle_count op' ip' (Fin cd) = PInf
             \<or> max_array_length < passes (cycle_count op' ip' (Fin cd)) * length ks")
    case True
    then have "expand_layer B (JObj lf) = Inl RangeError" unfolding e by (simp only: if_True)
    with el show ?thesis by simp
  next
    case False
    then have "expand_layer B (JObj lf) = Inr (JObj (AList.update ''tm''
                 (JObj (AList.delete ''x''
                    (AList.update ''k''
                       (JArr (expansion ks (Fin cd) (passes (cycle_count op' ip' (Fin cd)))) [])
                       tmf)))
                 lf))"
      unfolding e by (simp only: if_False)
    with el l' False show ?thesis by simp
  qed
qed

lemmas run_simps =
  expandTmCycles_def walk_asset_def expand_layer_def expand_keyframes_def js_or_def js_sub_def
  js_add_def shifted_copy_def json_clone_def cycle_loop.simps Let_def num_sub_def array_push_def
  max_array_length_def json_num_def

lemma scenario_run: "expandTmCycles B scenario_doc = Inr scenario_result"
  by (simp add: scenario_doc_def scenario_result_def run_simps round_simps)

lemmas at_simps = keyframes_at_def layers_of_def assets_of_def

lemma scenario_kfs:
  "map time_of (the (keyframes_at scenario_result (Top 0))) =
     [Fin 0, Fin 25, Fin 25, Fin 50, Fin 50, Fin 75, Fin 75, Fin 100, Fin 100, Fin 125]"
  by (simp add: scenario_result_def at_simps)


lemma negative_span_run: "expandTmCycles B negative_span_doc = Inr negative_span_result"
  by (simp add: negative_span_doc_def negative_span_result_def run_simps round_simps)

lemma overflow_run: "expandTmCycles B overflow_doc = Inr overflow_result"
  by (simp add: overflow_doc_def overflow_result_def run_simps round_simps)

lemma endless_run: "expandTmCycles B endless_doc = Inr endless_result"
  by (simp add: endless_doc_def endless_result_def run_simps round_simps inf_of_def)


lemma untimed_run: "expandTmCycles B untimed_doc = Inr untimed_result"
  by (simp add: untimed_doc_def untimed_result_def run_simps round_simps)

lemma asset_run: "expandTmCycles B asset_doc = Inr asset_result"
  by (simp add: asset_doc_def asset_result_def run_simps round_simps)

lemma fraction_run: "expandTmCycles B fraction_doc = Inr fraction_result"
proof -
  let ?ks = "[JObj [(''t'', JNum (json_num (2 / 10)))],
              JObj [(''t'', JNum (json_num (9 / 10)))]]"
  let ?tmf = "[(''x'', JStr ''loopOut('cycle')''), (''k'', JArr ?ks [])]"
  let ?lf = "[(''ip'', JNum (Fin 0)), (''op'', JNum (Fin 1)), (''tm'', JObj ?tmf)]"
  have tm: "map_of ?lf ''tm'' = Some (JObj ?tmf)" by simp
  have x: "map_of ?tmf ''x'' = Some (JStr ''loopOut('cycle')'')" by simp
  have marker: "str_includes ''loopOut('cycle')'' ''loopOut''" by simp
  have k: "map_of ?tmf ''k'' = Some (JArr ?ks [])" by simp
  have len: "2 \<le> length ?ks" by simp
  have kfs: "\<forall>kf\<in>set ?ks. keyframe kf"
    by (simp add: keyframe_def double_def json_num_def round_simps)
  have cd: "num_sub (time_of (last ?ks)) (time_of (hd ?ks)) = Fin (3152519739159347 / 4503599627370496)"
    by (simp add: num_sub_def json_num_def round_simps)
  have pos: "(0::rat) < 3152519739159347 / 4503599627370496" by simp
  have op: "frame_or B ?lf ''op'' 900 = Inr (Fin (1))"
    by (simp add: frame_or_def json_num_def round_simps)
  have ip: "frame_or B ?lf ''ip'' 0 = Inr (Fin (0))"
    by (simp add: frame_or_def json_num_def round_simps)
  have count: "cycle_count (Fin (1)) (Fin (0)) (Fin (3152519739159347 / 4503599627370496)) = Fin 3"
    by (simp add: cycle_count_def num_sub_def round_simps)
  have upt: "[0..<3] = [0, 1, 2]" by (simp add: upt_rec)
  have ex: "expansion ?ks (Fin (3152519739159347 / 4503599627370496)) 3 =
      [JObj [(''t'', JNum (json_num (2 / 10)))],
       JObj [(''t'', JNum (json_num (9 / 10)))],
       JObj [(''t'', JNum (json_num (8999999999999999 / 10000000000000000)))],
       JObj [(''t'', JNum (json_num (16 / 10)))],
       JObj [(''t'', JNum (json_num (15999999999999999 / 10000000000000000)))],
       JObj [(''t'', JNum (json_num (23 / 10)))]]"
    by (simp add: expansion_def shifted_def upt json_num_def round_simps)
  have "expand_layer B (JObj ?lf) =
        Inr (JObj (AList.update ''tm''
               (JObj (AList.delete ''x'' (AList.update ''k''
                  (JArr (expansion ?ks (Fin (3152519739159347 / 4503599627370496)) 3) []) ?tmf))) ?lf))"
    unfolding expand_layer_eligible [OF tm x marker k len kfs cd pos op ip] count
    by (simp add: max_array_length_def)
  then show ?thesis
    unfolding ex by (simp add: fraction_doc_def fraction_result_def expandTmCycles_def)
qed


section \<open>The claims about expandTmCycles\<close>

text \<open>
  C1 (as amended). Take a layer, at the top level or inside an asset, whose \<^verbatim>\<open>tm.x\<close> is a
  string containing \<^verbatim>\<open>loopOut\<close>, whose \<^verbatim>\<open>tm.k\<close> holds at least two keyframes (decoded JSON
  objects with finite numbers) ordered by ascending \<^verbatim>\<open>t\<close>, and whose cycle duration \<open>cd\<close>
  (last \<^verbatim>\<open>t\<close> minus first \<^verbatim>\<open>t\<close>) is positive and finite. After \<^verbatim>\<open>expandTmCycles\<close> has run,
  \<^verbatim>\<open>tm.k\<close> has length \<open>n\<close> times the original length, where \<open>n\<close> is the number of passes of
  the loop for \<open>cycles = ceil((op - ip) / cd) + 1\<close> (none when that is not positive); when \<open>n\<close>
  is positive its first keyframe has the original first \<^verbatim>\<open>t\<close>; \<^verbatim>\<open>tm.x\<close> is absent; and the
  keyframe emitted for cycle \<open>c\<close> and original index \<open>i\<close> is a deep copy of the original
  keyframe with only \<^verbatim>\<open>t\<close> changed to \<open>t + c * cd\<close>, the product and the sum rounded to
  binary64, cycles outermost. The result is non-decreasing in \<^verbatim>\<open>t\<close> when the times are whole
  frame numbers (of magnitude at most \<open>2 ^ 52\<close>, with \<open>n * cd\<close> at most \<open>2 ^ 52\<close>), where that
  arithmetic is exact. Nothing else in the layer changes.
\<close>

theorem expandTmCycles_valid_layer:
  assumes run: "expandTmCycles B d = Inr d'" and at: "layer_at d p = Some (JObj lf)"
    and tm: "map_of lf ''tm'' = Some (JObj tmf)"
    and x: "map_of tmf ''x'' = Some (JStr s)" and marker: "str_includes s ''loopOut''"
    and k: "map_of tmf ''k'' = Some (JArr ks ps)" and len: "2 \<le> length ks"
    and kfs: "\<forall>kf\<in>set ks. keyframe kf" and srt: "times_sorted ks"
    and cd: "num_sub (time_of (last ks)) (time_of (hd ks)) = Fin cd" and pos: "0 < cd"
    and op: "frame_or B lf ''op'' 900 = Inr op'" and ip: "frame_or B lf ''ip'' 0 = Inr ip'"
    and n: "n = passes (cycle_count op' ip' (Fin cd))"
  shows "\<exists>ks'. layer_at d' p =
            Some (JObj (AList.update ''tm''
                    (JObj (AList.delete ''x'' (AList.update ''k'' (JArr ks' []) tmf))) lf))
          \<and> length ks' = n * length ks
          \<and> (whole_frames ks cd n \<longrightarrow> times_sorted ks')
          \<and> (0 < n \<longrightarrow> time_of (hd ks') = time_of (hd ks))
          \<and> map_of (AList.delete ''x'' (AList.update ''k'' (JArr ks' []) tmf)) ''x'' = None
          \<and> (\<forall>c<n. \<forall>i<length ks.
                ks' ! (c * length ks + i) =
                with_time (ks ! i) (num_add (time_of (ks ! i)) (num_mul (Fin (of_nat c)) (Fin cd))))"
proof -
  have ne: "ks \<noteq> []" using len by auto
  have res: "layer_at d' p = Some (JObj (AList.update ''tm''
                (JObj (AList.delete ''x'' (AList.update ''k'' (JArr (expansion ks (Fin cd) n) []) tmf))) lf))"
    using eligible_layer_at [OF run at tm x marker k len kfs cd pos op ip] by (simp add: n)
  have len': "length (expansion ks (Fin cd) n) = n * length ks"
    by (rule length_expansion)
  have srt': "whole_frames ks cd n \<longrightarrow> times_sorted (expansion ks (Fin cd) n)"
    using sorted_expansion [OF kfs ne srt _ cd pos] by blast
  have hd': "0 < n \<longrightarrow> time_of (hd (expansion ks (Fin cd) n)) = time_of (hd ks)"
    using hd_expansion [OF ne, of n "Fin cd"] kfs ne by (simp add: time_of_first_copy)
  have x': "map_of (AList.delete ''x'' (AList.update ''k'' (JArr (expansion ks (Fin cd) n) []) tmf)) ''x'' = None"
    by (simp add: delete_conv')
  have nth': "\<forall>c<n. \<forall>i<length ks.
       expansion ks (Fin cd) n ! (c * length ks + i) =
       with_time (ks ! i) (num_add (time_of (ks ! i)) (num_mul (Fin (of_nat c)) (Fin cd)))"
    by (simp add: nth_expansion shifted_def)
  show ?thesis
    by (rule exI [of _ "expansion ks (Fin cd) n"]) (intro conjI res len' srt' hd' x' nth')
qed

text \<open>The theorem at the scenario document: five cycles of two keyframes.\<close>

theorem expandTmCycles_valid_layer_witness:
  "\<forall>B. \<exists>ks'. layer_at scenario_result (Top 0) =
            Some (JObj [(''ip'', JNum (Fin 0)), (''op'', JNum (Fin 100)),
                        (''tm'', JObj [(''k'', JArr ks' [])])])
          \<and> length ks' = 10
          \<and> times_sorted ks'
          \<and> time_of (hd ks') = Fin 0"
proof
  fix B :: builtins
  let ?ks = "[JObj [(''t'', JNum (Fin 0)), (''v'', JNum (Fin 0))],
              JObj [(''t'', JNum (Fin 25)), (''v'', JNum (Fin 1))]]"
  let ?tmf = "[(''x'', JStr ''loopOut('cycle')''), (''k'', JArr ?ks [])]"
  let ?lf = "[(''ip'', JNum (Fin 0)), (''op'', JNum (Fin 100)), (''tm'', JObj ?tmf)]"
  have at: "layer_at scenario_doc (Top 0) = Some (JObj ?lf)"
    by (simp add: scenario_doc_def layers_of_def)
  have tm: "map_of ?lf ''tm'' = Some (JObj ?tmf)" by simp
  have x: "map_of ?tmf ''x'' = Some (JStr ''loopOut('cycle')'')" by simp
  have marker: "str_includes ''loopOut('cycle')'' ''loopOut''" by simp
  have k: "map_of ?tmf ''k'' = Some (JArr ?ks [])" by simp
  have len: "2 \<le> length ?ks" by simp
  have kfs: "\<forall>kf\<in>set ?ks. keyframe kf" by (simp add: keyframe_def double_def round_simps)
  have srt: "times_sorted ?ks" by (simp add: times_sorted_def)
  have cd: "num_sub (time_of (last ?ks)) (time_of (hd ?ks)) = Fin 25"
    by (simp add: num_sub_def round_simps)
  have pos: "(0::rat) < 25" by simp
  have op: "frame_or B ?lf ''op'' 900 = Inr (Fin 100)" by (simp add: frame_or_def)
  have ip: "frame_or B ?lf ''ip'' 0 = Inr (Fin 0)" by (simp add: frame_or_def)
  have n: "(5::nat) = passes (cycle_count (Fin 100) (Fin 0) (Fin 25))"
    by (simp add: cycle_count_def num_sub_def round_simps)
  have whole: "whole_frames ?ks 25 5" by (simp add: whole_frames_def)
  have "\<exists>ks'. layer_at scenario_result (Top 0) =
            Some (JObj (AList.update ''tm''
               (JObj (AList.delete ''x'' (AList.update ''k'' (JArr ks' []) ?tmf))) ?lf))
          \<and> length ks' = 5 * length ?ks
          \<and> (whole_frames ?ks 25 5 \<longrightarrow> times_sorted ks')
          \<and> (0 < (5::nat) \<longrightarrow> time_of (hd ks') = time_of (hd ?ks))
          \<and> map_of (AList.delete ''x'' (AList.update ''k'' (JArr ks' []) ?tmf)) ''x'' = None
          \<and> (\<forall>c<5. \<forall>i<length ?ks.
                ks' ! (c * length ?ks + i) =
                with_time (?ks ! i) (num_add (time_of (?ks ! i)) (num_mul (Fin (of_nat c)) (Fin 25))))"
    by (rule expandTmCycles_valid_layer [OF scenario_run at tm x marker k len kfs srt cd pos op ip n])
  then obtain ks' where c:
     "layer_at scenario_result (Top 0) =
            Some (JObj (AList.update ''tm''
               (JObj (AList.delete ''x'' (AList.update ''k'' (JArr ks' []) ?tmf))) ?lf))
          \<and> length ks' = 5 * length ?ks
          \<and> (whole_frames ?ks 25 5 \<longrightarrow> times_sorted ks')
          \<and> (0 < (5::nat) \<longrightarrow> time_of (hd ks') = time_of (hd ?ks))
          \<and> map_of (AList.delete ''x'' (AList.update ''k'' (JArr ks' []) ?tmf)) ''x'' = None
          \<and> (\<forall>c<5. \<forall>i<length ?ks.
                ks' ! (c * length ?ks + i) =
                with_time (?ks ! i) (num_add (time_of (?ks ! i)) (num_mul (Fin (of_nat c)) (Fin 25))))"
    ..
  note r = c [THEN conjunct1]
  note l = c [THEN conjunct2, THEN conjunct1]
  note s = c [THEN conjunct2, THEN conjunct2, THEN conjunct1]
  note h = c [THEN conjunct2, THEN conjunct2, THEN conjunct2, THEN conjunct1]
  have r': "layer_at scenario_result (Top 0) =
            Some (JObj [(''ip'', JNum (Fin 0)), (''op'', JNum (Fin 100)),
                        (''tm'', JObj [(''k'', JArr ks' [])])])"
    using r by simp
  have l': "length ks' = 10" using l by simp
  have s': "times_sorted ks'" using s whole by (rule mp)
  have h': "time_of (hd ks') = Fin 0" using h by simp
  show "\<exists>ks'. layer_at scenario_result (Top 0) =
            Some (JObj [(''ip'', JNum (Fin 0)), (''op'', JNum (Fin 100)),
                        (''tm'', JObj [(''k'', JArr ks' [])])])
          \<and> length ks' = 10
          \<and> times_sorted ks'
          \<and> time_of (hd ks') = Fin 0"
    by (rule exI [of _ ks']) (intro conjI r' l' s' h')
qed

text \<open>
  C1 as stated fails in four ways. When the layer ends before it starts (\<^verbatim>\<open>ip = 100\<close>,
  \<^verbatim>\<open>op = 50\<close>, keyframes at \<^verbatim>\<open>t = 0, 25\<close>) the formula for the number of cycles gives \<open>-1\<close>,
  the loop does not run, and \<^verbatim>\<open>tm.k\<close> becomes the empty list: its length is not
  \<open>cycles * 2 = -2\<close> and it has no first keyframe. With keyframes at \<^verbatim>\<open>t = 0.2, 0.9\<close> the
  third emitted time is below the second, so the result is not non-decreasing. A keyframe
  value that is an infinity is copied as \<^verbatim>\<open>null\<close>, so the copy differs from the original in
  more than \<^verbatim>\<open>t\<close>. And a last keyframe at an infinite \<^verbatim>\<open>t\<close> gives a positive cycle duration
  for which every emitted \<^verbatim>\<open>t\<close> is \<open>NaN\<close>.
\<close>

theorem negative_span_counterexample:
  "(\<forall>B. expandTmCycles B negative_span_doc = Inr negative_span_result)
   \<and> keyframes_at negative_span_result (Top 0) = Some []
   \<and> (\<lceil>((50::rat) - 100) / (25 - 0)\<rceil> + 1) * 2 = (-2::int)
   \<and> (\<forall>B. expandTmCycles B fraction_doc = Inr fraction_result)
   \<and> map time_of (the (keyframes_at fraction_result (Top 0))) =
       [json_num (2 / 10), json_num (9 / 10), json_num (8999999999999999 / 10000000000000000),
        json_num (16 / 10), json_num (15999999999999999 / 10000000000000000), json_num (23 / 10)]
   \<and> num_lt (json_num (8999999999999999 / 10000000000000000)) (json_num (9 / 10))
   \<and> (\<forall>B. expandTmCycles B overflow_doc = Inr overflow_result)
   \<and> keyframes_at overflow_result (Top 0) =
       Some [JObj [(''t'', JNum (Fin 0)), (''v'', JNull)],
             JObj [(''t'', JNum (Fin 10)), (''v'', JNum (Fin 1))],
             JObj [(''t'', JNum (Fin 10)), (''v'', JNull)],
             JObj [(''t'', JNum (Fin 20)), (''v'', JNum (Fin 1))]]
   \<and> (\<forall>B. expandTmCycles B endless_doc = Inr endless_result)
   \<and> keyframes_at endless_result (Top 0) = Some [JObj [(''t'', JNum NaN)], JObj [(''t'', JNum NaN)]]"
proof -
  have a: "keyframes_at negative_span_result (Top 0) = Some []"
    by (simp add: negative_span_result_def at_simps)
  have b: "(\<lceil>((50::rat) - 100) / (25 - 0)\<rceil> + 1) * 2 = (-2::int)" by simp
  have c: "map time_of (the (keyframes_at fraction_result (Top 0))) =
       [json_num (2 / 10), json_num (9 / 10), json_num (8999999999999999 / 10000000000000000),
        json_num (16 / 10), json_num (15999999999999999 / 10000000000000000), json_num (23 / 10)]"
    by (simp add: fraction_result_def at_simps)
  have d: "num_lt (json_num (8999999999999999 / 10000000000000000)) (json_num (9 / 10))"
    by (simp add: json_num_def round_simps)
  have e: "keyframes_at overflow_result (Top 0) =
       Some [JObj [(''t'', JNum (Fin 0)), (''v'', JNull)],
             JObj [(''t'', JNum (Fin 10)), (''v'', JNum (Fin 1))],
             JObj [(''t'', JNum (Fin 10)), (''v'', JNull)],
             JObj [(''t'', JNum (Fin 20)), (''v'', JNum (Fin 1))]]"
    by (simp add: overflow_result_def at_simps)
  have f: "keyframes_at endless_result (Top 0) = Some [JObj [(''t'', JNum NaN)], JObj [(''t'', JNum NaN)]]"
    by (simp add: endless_result_def at_simps)
  show ?thesis
    using negative_span_run fraction_run overflow_run endless_run a b c d e f
    by (intro conjI allI)
qed

text \<open>
  C2. On the document \<^verbatim>\<open>{layers: [{ip:0, op:100, tm:{x:"loopOut('cycle')",
  k:[{t:0,v:0},{t:25,v:1}]}}]}\<close> the function produces exactly ten keyframes with \<^verbatim>\<open>t\<close>
  values 0, 25, 25, 50, 50, 75, 75, 100, 100, 125, and \<^verbatim>\<open>tm.x\<close> is absent afterwards.
\<close>

theorem scenario_end_to_end:
  "expandTmCycles B scenario_doc = Inr scenario_result
   \<and> keyframes_at scenario_result (Top 0) =
       Some [JObj [(''t'', JNum (Fin 0)), (''v'', JNum (Fin 0))],
             JObj [(''t'', JNum (Fin 25)), (''v'', JNum (Fin 1))],
             JObj [(''t'', JNum (Fin 25)), (''v'', JNum (Fin 0))],
             JObj [(''t'', JNum (Fin 50)), (''v'', JNum (Fin 1))],
             JObj [(''t'', JNum (Fin 50)), (''v'', JNum (Fin 0))],
             JObj [(''t'', JNum (Fin 75)), (''v'', JNum (Fin 1))],
             JObj [(''t'', JNum (Fin 75)), (''v'', JNum (Fin 0))],
             JObj [(''t'', JNum (Fin 100)), (''v'', JNum (Fin 1))],
             JObj [(''t'', JNum (Fin 100)), (''v'', JNum (Fin 0))],
             JObj [(''t'', JNum (Fin 125)), (''v'', JNum (Fin 1))]]
   \<and> map time_of (the (keyframes_at scenario_result (Top 0))) =
       [Fin 0, Fin 25, Fin 25, Fin 50, Fin 50, Fin 75, Fin 75, Fin 100, Fin 100, Fin 125]
   \<and> length (the (keyframes_at scenario_result (Top 0))) = 10
   \<and> and_then (get_prop (the (layer_at scenario_result (Top 0))) ''tm'') (\<lambda>tm. get_prop tm ''x'')
       = Inr JUndefined"
proof -
  have "keyframes_at scenario_result (Top 0) =
       Some [JObj [(''t'', JNum (Fin 0)), (''v'', JNum (Fin 0))],
             JObj [(''t'', JNum (Fin 25)), (''v'', JNum (Fin 1))],
             JObj [(''t'', JNum (Fin 25)), (''v'', JNum (Fin 0))],
             JObj [(''t'', JNum (Fin 50)), (''v'', JNum (Fin 1))],
             JObj [(''t'', JNum (Fin 50)), (''v'', JNum (Fin 0))],
             JObj [(''t'', JNum (Fin 75)), (''v'', JNum (Fin 1))],
             JObj [(''t'', JNum (Fin 75)), (''v'', JNum (Fin 0))],
             JObj [(''t'', JNum (Fin 100)), (''v'', JNum (Fin 1))],
             JObj [(''t'', JNum (Fin 100)), (''v'', JNum (Fin 0))],
             JObj [(''t'', JNum (Fin 125)), (''v'', JNum (Fin 1))]]"
    by (simp add: scenario_result_def at_simps)
  moreover have "length (the (keyframes_at scenario_result (Top 0))) = 10"
    by (simp add: scenario_result_def at_simps)
  moreover have "and_then (get_prop (the (layer_at scenario_result (Top 0))) ''tm'')
                   (\<lambda>tm. get_prop tm ''x'') = Inr JUndefined"
    by (simp add: scenario_result_def layers_of_def)
  ultimately show ?thesis
    using scenario_run scenario_kfs by (intro conjI)
qed




text \<open>
  C5. The claim says that a layer whose \<^verbatim>\<open>tm.k\<close> is not a sequence of at least two
  keyframes is left unchanged. On a layer whose \<^verbatim>\<open>tm.k\<close> holds two entries without \<^verbatim>\<open>t\<close>
  the code computes the cycle duration \<open>NaN\<close>, which the guard \<^verbatim>\<open>cycleDur <= 0\<close> lets
  through; the loop makes no pass, \<^verbatim>\<open>tm.k\<close> is replaced by the empty array and \<^verbatim>\<open>tm.x\<close> is
  deleted.
\<close>

theorem untimed_keyframes_erased:
  "expandTmCycles B untimed_doc = Inr untimed_result
   \<and> keyframes_at untimed_doc (Top 0) = Some [JObj [(''v'', JNum (Fin 1))], JObj [(''v'', JNum (Fin 2))]]
   \<and> keyframes_at untimed_result (Top 0) = Some []
   \<and> layer_at untimed_result (Top 0) \<noteq> layer_at untimed_doc (Top 0)"
proof -
  have "keyframes_at untimed_doc (Top 0) = Some [JObj [(''v'', JNum (Fin 1))], JObj [(''v'', JNum (Fin 2))]]"
    by (simp add: untimed_doc_def at_simps)
  moreover have "keyframes_at untimed_result (Top 0) = Some []"
    by (simp add: untimed_result_def at_simps)
  moreover have "layer_at untimed_result (Top 0) \<noteq> layer_at untimed_doc (Top 0)"
    by (simp add: untimed_result_def untimed_doc_def layers_of_def)
  ultimately show ?thesis using untimed_run by (intro conjI)
qed

lemma expand_single_top:
  assumes "expand_layer B l = Inr l'"
  shows "expandTmCycles B (JObj [(''layers'', JArr [l] [])]) = Inr (JObj [(''layers'', JArr [l'] [])])"
  using assms by (simp add: expandTmCycles_def)

text \<open>
  C6. A layer reached through \<^verbatim>\<open>assets[j].layers[i]\<close> is transformed by \<^verbatim>\<open>expandTmCycles\<close>
  exactly as the same layer is when it is the only top-level layer of a document.
\<close>

theorem asset_layer_expanded:
  assumes run: "expandTmCycles B d = Inr d'" and at: "layer_at d (InAsset j i) = Some l"
  shows "\<exists>l'. layer_at d' (InAsset j i) = Some l'
              \<and> expandTmCycles B (JObj [(''layers'', JArr [l] [])])
                  = Inr (JObj [(''layers'', JArr [l'] [])])"
proof -
  from expandTmCycles_layer_at [OF run at] obtain l' where
    l': "layer_at d' (InAsset j i) = Some l'" and el: "expand_layer B l = Inr l'"
    by blast
  from el have "expandTmCycles B (JObj [(''layers'', JArr [l] [])])
                  = Inr (JObj [(''layers'', JArr [l'] [])])"
    by (rule expand_single_top)
  with l' show ?thesis by (intro exI conjI)
qed

text \<open>
  The theorem at a document whose only eligible layer sits inside an asset: it is expanded
  to two cycles, as it is at top level.
\<close>

theorem asset_layer_expanded_witness:
  "\<forall>B. layer_at asset_result (InAsset 0 0) =
     Some (JObj [(''ip'', JNum (Fin 0)), (''op'', JNum (Fin 20)),
          (''tm'', JObj [(''k'', JArr [JObj [(''t'', JNum (Fin 0))], JObj [(''t'', JNum (Fin 20))],
                                       JObj [(''t'', JNum (Fin 20))], JObj [(''t'', JNum (Fin 40))]] [])])])
   \<and> expandTmCycles B (JObj [(''layers'', JArr [JObj [(''ip'', JNum (Fin 0)), (''op'', JNum (Fin 20)),
          (''tm'', JObj [(''x'', JStr ''loopOut('cycle')''),
                         (''k'', JArr [JObj [(''t'', JNum (Fin 0))], JObj [(''t'', JNum (Fin 20))]] [])])]] [])])
     = Inr (JObj [(''layers'', JArr [JObj [(''ip'', JNum (Fin 0)), (''op'', JNum (Fin 20)),
          (''tm'', JObj [(''k'', JArr [JObj [(''t'', JNum (Fin 0))], JObj [(''t'', JNum (Fin 20))],
                                       JObj [(''t'', JNum (Fin 20))], JObj [(''t'', JNum (Fin 40))]] [])])]] [])])"
proof
  fix B :: builtins
  let ?l = "JObj [(''ip'', JNum (Fin 0)), (''op'', JNum (Fin 20)),
          (''tm'', JObj [(''x'', JStr ''loopOut('cycle')''),
                         (''k'', JArr [JObj [(''t'', JNum (Fin 0))], JObj [(''t'', JNum (Fin 20))]] [])])]"
  let ?r = "JObj [(''ip'', JNum (Fin 0)), (''op'', JNum (Fin 20)),
          (''tm'', JObj [(''k'', JArr [JObj [(''t'', JNum (Fin 0))], JObj [(''t'', JNum (Fin 20))],
                                       JObj [(''t'', JNum (Fin 20))], JObj [(''t'', JNum (Fin 40))]] [])])]"
  have at: "layer_at asset_doc (InAsset 0 0) = Some ?l"
    by (simp add: asset_doc_def layers_of_def assets_of_def)
  have at': "layer_at asset_result (InAsset 0 0) = Some ?r"
    by (simp add: asset_result_def layers_of_def assets_of_def)
  have "\<exists>l'. layer_at asset_result (InAsset 0 0) = Some l'
              \<and> expandTmCycles B (JObj [(''layers'', JArr [?l] [])])
                  = Inr (JObj [(''layers'', JArr [l'] [])])"
    by (rule asset_layer_expanded [OF asset_run at])
  then obtain l' where c: "layer_at asset_result (InAsset 0 0) = Some l'
              \<and> expandTmCycles B (JObj [(''layers'', JArr [?l] [])])
                  = Inr (JObj [(''layers'', JArr [l'] [])])"
    ..
  from c [THEN conjunct1] at' have "l' = ?r" by (simp only: option.inject)
  with c show "layer_at asset_result (InAsset 0 0) = Some ?r
     \<and> expandTmCycles B (JObj [(''layers'', JArr [?l] [])]) = Inr (JObj [(''layers'', JArr [?r] [])])"
    by (simp only:)
qed

lemma set_prop_get: "set_prop a k v = Inr b \<Longrightarrow> get_prop b k = Inr v"
  by (cases a) (auto simp: update_conv')

lemma delete_prop_get: "delete_prop a k = Inr b \<Longrightarrow> get_prop b k = Inr JUndefined"
  by (cases a) (auto simp: delete_conv')

lemma expand_keyframes_shape:
  assumes "expand_keyframes B l tm ks = Inr l'"
  shows "l' = l \<or> (\<exists>tm2. get_prop l' ''tm'' = Inr tm2 \<and> get_prop tm2 ''x'' = Inr JUndefined)"
proof (cases "l' = l")
  case True
  then show ?thesis by simp
next
  case False
  with assms obtain expanded tm1 tm2 where
    s1: "set_prop tm ''k'' (JArr expanded []) = Inr tm1"
    and s2: "delete_prop tm1 ''x'' = Inr tm2"
    and s3: "set_prop l ''tm'' tm2 = Inr l'"
    unfolding expand_keyframes_def
    by (auto simp: and_then_eq_Inr Let_def split: if_splits)
  from set_prop_get [OF s3] delete_prop_get [OF s2] show ?thesis by blast
qed

lemma expand_layer_shape:
  assumes "expand_layer B l = Inr l'"
  shows "l' = l \<or> (\<exists>tm2. get_prop l' ''tm'' = Inr tm2 \<and> get_prop tm2 ''x'' = Inr JUndefined)"
proof (cases "l' = l")
  case True
  then show ?thesis by simp
next
  case False
  with assms obtain tm kfs where
    "(case kfs of JArr ks ps \<Rightarrow> expand_keyframes B l tm ks | _ \<Rightarrow> Inr l) = Inr l'"
    unfolding expand_layer_def
    by (auto simp: and_then_eq_Inr split: if_splits)
  with False obtain ks where "expand_keyframes B l tm ks = Inr l'"
    by (cases kfs) auto
  then show ?thesis by (rule expand_keyframes_shape)
qed

lemma expand_layer_fixed:
  assumes "expand_layer B l = Inr l'"
  shows "expand_layer B l' = Inr l'"
proof -
  from expand_layer_shape [OF assms] show ?thesis
  proof
    assume "l' = l"
    then show ?thesis using assms by simp
  next
    assume "\<exists>tm2. get_prop l' ''tm'' = Inr tm2 \<and> get_prop tm2 ''x'' = Inr JUndefined"
    then obtain tm2 where "get_prop l' ''tm'' = Inr tm2" "get_prop tm2 ''x'' = Inr JUndefined"
      by blast
    then show ?thesis
      by (simp add: expand_layer_def)
  qed
qed

lemma for_each_fixed:
  assumes "\<And>x y. f x = Inr y \<Longrightarrow> f y = Inr y"
  shows "for_each f xs = Inr ys \<Longrightarrow> for_each f ys = Inr ys"
proof (induction xs arbitrary: ys)
  case Nil
  then show ?case by simp
next
  case (Cons x xs)
  from Cons.prems obtain y ys' where y: "f x = Inr y" and ys': "for_each f xs = Inr ys'"
    and ys: "ys = y # ys'"
    by (auto simp: and_then_eq_Inr)
  show ?case
    using Cons.IH [OF ys'] assms [OF y] ys by simp
qed

lemma walk_fixed: "walk B v = Inr v' \<Longrightarrow> walk B v' = Inr v'"
proof (cases v)
  case (JArr ls ps)
  assume "walk B v = Inr v'"
  with JArr obtain ls' where fe: "for_each (expand_layer B) ls = Inr ls'" and v': "v' = JArr ls' ps"
    by (auto simp: and_then_eq_Inr)
  from for_each_fixed [of "expand_layer B", OF expand_layer_fixed fe] v' show ?thesis by simp
qed auto

lemma put_back_triv: "get_prop d k = Inr v \<Longrightarrow> put_back d k v = d"
  by (cases d) (auto simp: update_triv split: option.splits)

lemma get_put_back_walked:
  assumes "get_prop d k = Inr v" and "walk B v = Inr v'"
  shows "get_prop (put_back d k v') k = Inr v'"
  using assms by (cases d) (auto simp: update_conv' split: option.splits)

lemma walk_asset_fixed:
  assumes "walk_asset B a = Inr a'"
  shows "walk_asset B a' = Inr a'"
proof -
  from assms obtain lv lv' where lv: "get_prop a ''layers'' = Inr lv"
    and lv': "walk B lv = Inr lv'" and a': "a' = put_back a ''layers'' lv'"
    by (auto simp: walk_asset_def and_then_eq_Inr)
  have g: "get_prop a' ''layers'' = Inr lv'"
    unfolding a' using lv lv' by (rule get_put_back_walked)
  have "put_back a' ''layers'' lv' = a'" using g by (rule put_back_triv)
  then show ?thesis
    using g walk_fixed [OF lv'] by (simp add: walk_asset_def)
qed

lemma expandTmCycles_fixed:
  assumes run: "expandTmCycles B d = Inr d'"
  shows "expandTmCycles B d' = Inr d'"
proof -
  from run obtain lv lv' av where
    lv: "get_prop d ''layers'' = Inr lv" and lv': "walk B lv = Inr lv'"
    and av: "get_prop (put_back d ''layers'' lv') ''assets'' = Inr av"
    and rest: "(case av of
                  JArr as ps \<Rightarrow> and_then (for_each (walk_asset B) as)
                              (\<lambda>as'. Inr (put_back (put_back d ''layers'' lv') ''assets'' (JArr as' ps)))
                | _ \<Rightarrow> Inr (put_back d ''layers'' lv')) = Inr d'"
    by (auto simp: expandTmCycles_def and_then_eq_Inr Let_def)
  define d1 where "d1 = put_back d ''layers'' lv'"
  have g1: "get_prop d1 ''layers'' = Inr lv'"
    unfolding d1_def using lv lv' by (rule get_put_back_walked)
  have w1: "walk B lv' = Inr lv'" using lv' by (rule walk_fixed)
  show ?thesis
  proof (cases "\<exists>as ps. av = JArr as ps")
    case True
    then obtain as ps as' where avas: "av = JArr as ps"
      and fe: "for_each (walk_asset B) as = Inr as'"
      and d': "d' = put_back d1 ''assets'' (JArr as' ps)"
      using rest by (auto simp: and_then_eq_Inr d1_def)
    have gl: "get_prop d' ''layers'' = Inr lv'"
      unfolding d' using g1 by (simp add: get_put_back_other)
    have pl: "put_back d' ''layers'' lv' = d'" using gl by (rule put_back_triv)
    have ga: "get_prop d' ''assets'' = Inr (JArr as' ps)"
      unfolding d' using av avas by (simp add: d1_def get_put_back_same)
    have pa: "put_back d' ''assets'' (JArr as' ps) = d'" using ga by (rule put_back_triv)
    have fe': "for_each (walk_asset B) as' = Inr as'"
      using for_each_fixed [of "walk_asset B", OF walk_asset_fixed fe] .
    show ?thesis
      by (simp add: expandTmCycles_def gl w1 pl ga fe' pa)
  next
    case False
    then have d': "d' = d1" using rest by (cases av) (simp_all add: d1_def)
    have pl: "put_back d1 ''layers'' lv' = d1" using g1 by (rule put_back_triv)
    have ga: "get_prop d1 ''assets'' = Inr av" using av by (simp add: d1_def)
    show ?thesis
      unfolding d' using False by (cases av) (simp_all add: expandTmCycles_def g1 w1 pl ga)
  qed
qed

text \<open>
  C7. Running \<^verbatim>\<open>expandTmCycles\<close> on a document it has already transformed changes nothing:
  the two calls in sequence give what the first call gives (and when the first call throws,
  there is no second call).
\<close>

theorem second_pass_unchanged:
  "and_then (expandTmCycles B d) (expandTmCycles B) = expandTmCycles B d"
proof (cases "expandTmCycles B d")
  case (Inl e)
  then show ?thesis by simp
next
  case (Inr d')
  then show ?thesis using expandTmCycles_fixed [OF Inr] by simp
qed

lemma shifted_copy_same: "shifted_copy_part000 = shifted_copy"
  by (intro ext) (simp add: shifted_copy_part000_def shifted_copy_def)

lemma push_copies_same: "push_copies_part000 B off ks acc = push_copies B off ks acc"
proof (induction ks arbitrary: acc)
  case Nil
  then show ?case by simp
next
  case (Cons kf ks)
  have "push_copies_part000 B off ks = push_copies B off ks"
    by (intro ext) (rule Cons.IH)
  then show ?case by (simp add: shifted_copy_same)
qed

lemma cycle_loop_same:
  "cycle_loop_part000 B ks cd cycles c acc = cycle_loop B ks cd cycles c acc"
proof (induction B ks cd cycles c acc rule: cycle_loop.induct)
  case (1 B kfs cycleDur cycles c expanded)
  show ?case
  proof (cases "kfs \<noteq> [] \<and> num_lt (Fin (of_nat c)) cycles")
    case False
    then show ?thesis
      by (subst cycle_loop_part000.simps, subst cycle_loop.simps) auto
  next
    case True
    show ?thesis
    proof (cases "push_copies B (num_mul (Fin (of_nat c)) cycleDur) kfs expanded")
      case (Inl e)
      then show ?thesis
        using True
        by (subst cycle_loop_part000.simps, subst cycle_loop.simps) (simp add: push_copies_same)
    next
      case (Inr e)
      then show ?thesis
        using True "1.IH" [OF True Inr]
        by (subst cycle_loop_part000.simps, subst cycle_loop.simps) (simp add: push_copies_same)
    qed
  qed
qed

lemma cycle_loop_fun_same: "cycle_loop_part000 = cycle_loop"
  by (intro ext) (rule cycle_loop_same)

lemma expand_keyframes_same: "expand_keyframes_part000 = expand_keyframes"
  unfolding expand_keyframes_part000_def [abs_def] expand_keyframes_def [abs_def] cycle_loop_fun_same
  by (rule refl)

lemma expand_layer_same: "expand_layer_part000 = expand_layer"
  unfolding expand_layer_part000_def [abs_def] expand_layer_def [abs_def] expand_keyframes_same
  by (rule refl)

lemma walk_same: "walk_part000 = walk"
proof (intro ext)
  fix B v show "walk_part000 B v = walk B v"
    by (cases v) (simp_all add: expand_layer_same)
qed

lemma walk_asset_same: "walk_asset_part000 = walk_asset"
  unfolding walk_asset_part000_def [abs_def] walk_asset_def [abs_def] walk_same
  by (rule refl)

text \<open>
  C9. The two \<^verbatim>\<open>expandTmCycles\<close> functions of the repository are extensionally equal: on
  every input document they give the same resulting document, or throw the same exception.
  The stripping of the remaining expression fields is a separate function
  (\<^verbatim>\<open>stripRemainingExpressions\<close>), which only the first file has and calls after the
  expansion.
\<close>

theorem expansions_agree: "expandTmCycles_part000 B d = expandTmCycles B d"
  unfolding expandTmCycles_part000_def expandTmCycles_def walk_same walk_asset_same
  by (rule refl)

lemma isl_and_then: "isl (and_then m f) \<longleftrightarrow> isl m \<or> (\<exists>v. m = Inr v \<and> isl (f v))"
  by (cases m) simp_all




































section \<open>The claims about stripRemainingExpressions\<close>

lemma strip_x_string:
  "map_of fs ''x'' = Some (HStr s) \<Longrightarrow> strip_x (HObj fs) = HObj (AList.delete ''x'' fs)"
  by simp

lemma strip_x_other:
  "\<forall>s. map_of fs ''x'' \<noteq> Some (HStr s) \<Longrightarrow> strip_x (HObj fs) = HObj fs"
  by (cases "map_of fs ''x''"; cases "the (map_of fs ''x'')") simp_all

lemma no_string_x_delete: "no_string_x (HObj (AList.delete ''x'' fs))"
  by (simp add: delete_conv')

lemma no_string_x_strip_x [simp]: "no_string_x (strip_x ob)"
proof (cases ob)
  case (HObj fs)
  show ?thesis
  proof (cases "\<exists>s. map_of fs ''x'' = Some (HStr s)")
    case True
    then obtain s where "map_of fs ''x'' = Some (HStr s)" by blast
    then have "strip_x (HObj fs) = HObj (AList.delete ''x'' fs)" by (rule strip_x_string)
    then show ?thesis using HObj no_string_x_delete [of fs] by (simp del: strip_x.simps no_string_x.simps)
  next
    case False
    then have "strip_x (HObj fs) = HObj fs" by (intro strip_x_other) simp
    moreover have "no_string_x (HObj fs)"
      using False by (cases "map_of fs ''x''"; cases "the (map_of fs ''x'')") simp_all
    ultimately show ?thesis using HObj by simp
  qed
qed simp

lemma strip_x_no_string: "no_string_x ob \<Longrightarrow> strip_x ob = ob"
proof (cases ob)
  case (HObj fs)
  assume "no_string_x ob"
  then have "\<forall>s. map_of fs ''x'' \<noteq> Some (HStr s)" using HObj by auto
  then have "strip_x (HObj fs) = HObj fs" by (rule strip_x_other)
  then show ?thesis using HObj by (simp del: strip_x.simps)
qed simp

lemma strip_x_idem [simp]: "strip_x (strip_x ob) = strip_x ob"
  by (rule strip_x_no_string) simp

lemma refs_of_delete:
  assumes "map_of fs ''x'' = Some (HStr s)"
  shows "refs_of (HObj (AList.delete ''x'' fs)) = refs_of (HObj fs)"
proof -
  have "(map_of (AList.delete ''x'' fs) k = Some (HRef a)) = (map_of fs k = Some (HRef a))" for k a
    using assms by (cases "k = ''x''") (simp_all add: delete_conv')
  then show ?thesis by simp
qed

lemma refs_of_strip_x [simp]: "refs_of (strip_x ob) = refs_of ob"
proof (cases ob)
  case (HObj fs)
  show ?thesis
  proof (cases "\<exists>s. map_of fs ''x'' = Some (HStr s)")
    case True
    then obtain s where s: "map_of fs ''x'' = Some (HStr s)" by blast
    then have "strip_x (HObj fs) = HObj (AList.delete ''x'' fs)" by (rule strip_x_string)
    then show ?thesis
      using HObj refs_of_delete [OF s] by (simp del: refs_of.simps strip_x.simps)
  next
    case False
    then have "strip_x (HObj fs) = HObj fs" by (intro strip_x_other) simp
    then show ?thesis using HObj by (simp del: strip_x.simps)
  qed
qed simp

lemma stripped_of_refl [simp]: "stripped_of h h"
  by (simp add: stripped_of_def)

lemma stripped_of_nth:
  "stripped_of h h' \<Longrightarrow> a < length h \<Longrightarrow> h' ! a = h ! a \<or> h' ! a = strip_x (h ! a)"
  by (simp add: stripped_of_def)

lemma stripped_of_length: "stripped_of h h' \<Longrightarrow> length h' = length h"
  by (simp add: stripped_of_def)

lemma stripped_of_trans:
  assumes "stripped_of h h1" and "stripped_of h1 h2"
  shows "stripped_of h h2"
proof -
  have len: "length h1 = length h" "length h2 = length h"
    using assms by (simp_all add: stripped_of_def)
  have "h2 ! a = h ! a \<or> h2 ! a = strip_x (h ! a)" if a: "a < length h" for a
  proof -
    have 1: "h1 ! a = h ! a \<or> h1 ! a = strip_x (h ! a)"
      using assms(1) a by (rule stripped_of_nth)
    have 2: "h2 ! a = h1 ! a \<or> h2 ! a = strip_x (h1 ! a)"
    proof (rule stripped_of_nth [OF assms(2)])
      show "a < length h1" using a len by simp
    qed
    from 1 show ?thesis
    proof
      assume "h1 ! a = h ! a"
      with 2 show ?thesis by simp
    next
      assume e: "h1 ! a = strip_x (h ! a)"
      from 2 have "h2 ! a = strip_x (h ! a)" unfolding e by (simp del: strip_x.simps)
      then show ?thesis by simp
    qed
  qed
  then show ?thesis using len by (simp add: stripped_of_def)
qed

lemma stripped_of_update: "a < length h \<Longrightarrow> stripped_of h (h[a := strip_x (h ! a)])"
proof -
  assume a: "a < length h"
  have "h[a := strip_x (h ! a)] ! b = h ! b \<or> h[a := strip_x (h ! a)] ! b = strip_x (h ! b)"
    if "b < length h" for b
  proof (cases "b = a")
    case True
    then show ?thesis using a by simp
  next
    case False
    then show ?thesis by simp
  qed
  then show ?thesis by (simp add: stripped_of_def)
qed

lemma stripped_of_refs:
  assumes "stripped_of h h'" and "a < length h"
  shows "refs_of (h' ! a) = refs_of (h ! a)"
proof -
  from stripped_of_nth [OF assms] show ?thesis
  proof
    assume "h' ! a = h ! a" then show ?thesis by simp
  next
    assume "h' ! a = strip_x (h ! a)" then show ?thesis by (simp del: strip_x.simps)
  qed
qed

lemma stripped_of_no_string:
  assumes "stripped_of h h'" and "a < length h" and "no_string_x (h ! a)"
  shows "no_string_x (h' ! a)"
proof -
  from stripped_of_nth [OF assms(1,2)] show ?thesis
  proof
    assume "h' ! a = h ! a" then show ?thesis using assms(3) by simp
  next
    assume "h' ! a = strip_x (h ! a)" then show ?thesis by (simp del: strip_x.simps)
  qed
qed

lemma refs_in_values: "b \<in> refs_of ob \<Longrightarrow> HRef b \<in> set (object_values ob)"
proof (cases ob)
  case (HObj fs)
  assume "b \<in> refs_of ob"
  with HObj obtain k where "map_of fs k = Some (HRef b)" by auto
  then have "(k, HRef b) \<in> set fs" by (rule map_of_SomeD)
  then have "snd (k, HRef b) \<in> snd ` set fs" by (rule imageI)
  then show ?thesis using HObj by simp
next
  case (HArr items)
  assume "b \<in> refs_of ob"
  then show ?thesis using HArr by simp
qed

lemma strip_ref_unfold:
  assumes "a < length h" and "a \<notin> seen"
  shows "stripRemainingExpressions (Suc n) (h, seen) (HRef a) =
         for_each_state (stripRemainingExpressions n) (h[a := strip_x (h ! a)], insert a seen)
           (object_values (strip_x (h ! a)))"
proof (cases "h ! a")
  case (HArr items)
  then have "h[a := strip_x (h ! a)] = h" using list_update_id [of h a] by simp
  then show ?thesis using assms HArr by simp
next
  case (HObj fs)
  then show ?thesis using assms by (simp add: Let_def del: strip_x.simps)
qed

lemma strip_seen:
  "a < length h \<Longrightarrow> a \<in> seen \<Longrightarrow>
   stripRemainingExpressions (Suc n) (h, seen) (HRef a) = Some (h[a := strip_x (h ! a)], seen)"
  by simp

lemma strip_outside:
  "length h \<le> a \<Longrightarrow> stripRemainingExpressions (Suc n) (h, seen) (HRef a) = Some (h, seen)"
  by simp

lemma strip_primitive:
  "\<forall>a. v \<noteq> HRef a \<Longrightarrow> stripRemainingExpressions (Suc n) st v = Some st"
  by (cases v; cases st) simp_all

lemma strip_cases:
  fixes v :: hval and h :: heap and S :: "nat set"
  obtains (prim) "\<forall>a. v \<noteq> HRef a"
  | (outside) a where "v = HRef a" "length h \<le> a"
  | (seen) a where "v = HRef a" "a < length h" "a \<in> S"
  | (fresh) a where "v = HRef a" "a < length h" "a \<notin> S"
proof (cases v)
  case (HRef a)
  then show thesis
    using outside [of a] seen [of a] fresh [of a]
    by (cases "length h \<le> a"; cases "a \<in> S") (simp_all add: not_le)
qed (use prim in simp_all)

lemma for_each_state_frame:
  assumes "\<And>h S v h' S'. f (h, S) v = Some (h', S') \<Longrightarrow> stripped_of h h' \<and> S \<subseteq> S'"
  shows "for_each_state f (h, S) vs = Some (h', S') \<Longrightarrow> stripped_of h h' \<and> S \<subseteq> S'"
proof (induction vs arbitrary: h S)
  case Nil
  then show ?case by simp
next
  case (Cons v vs)
  from Cons.prems obtain h2 S2 where 1: "f (h, S) v = Some (h2, S2)"
    and 2: "for_each_state f (h2, S2) vs = Some (h', S')"
    by (cases "f (h, S) v") auto
  have a: "stripped_of h h2 \<and> S \<subseteq> S2" using assms [OF 1] .
  have b: "stripped_of h2 h' \<and> S2 \<subseteq> S'" using Cons.IH [OF 2] .
  from a b show ?case using stripped_of_trans by blast
qed

lemma strip_frame:
  "stripRemainingExpressions n (h, S) v = Some (h', S') \<Longrightarrow> stripped_of h h' \<and> S \<subseteq> S'"
proof (induction n arbitrary: h S v h' S')
  case 0
  then show ?case by simp
next
  case (Suc n)
  show ?case
  proof (cases rule: strip_cases [where v = v and h = h and S = S])
    case prim
    then show ?thesis using Suc.prems by (simp add: strip_primitive)
  next
    case (outside a)
    then show ?thesis using Suc.prems by simp
  next
    case (seen a)
    then show ?thesis using Suc.prems stripped_of_update [of a h] by auto
  next
    case (fresh a)
    have "for_each_state (stripRemainingExpressions n)
        (h[a := strip_x (h ! a)], insert a S) (object_values (strip_x (h ! a))) = Some (h', S')"
      using Suc.prems unfolding fresh(1) strip_ref_unfold [OF fresh(2,3)] .
    then have "stripped_of (h[a := strip_x (h ! a)]) h' \<and> insert a S \<subseteq> S'"
      by (rule for_each_state_frame [rotated]) (rule Suc.IH)
    then show ?thesis
      using stripped_of_trans [OF stripped_of_update [OF fresh(2)]] by blast
  qed
qed

lemma for_each_state_frame_strip:
  assumes "for_each_state (stripRemainingExpressions n) (h, S) vs = Some (h', S')"
  shows "stripped_of h h' \<and> S \<subseteq> S'"
  using assms by (rule for_each_state_frame [rotated]) (rule strip_frame)

lemma closed_new_trans:
  assumes c1: "closed_new h S h2 S2" and c2: "closed_new h2 S2 h' S'"
    and f1: "stripped_of h h2" and f2: "stripped_of h2 h'" and s2: "S2 \<subseteq> S'"
  shows "closed_new h S h' S'"
  unfolding closed_new_def
proof (intro ballI)
  fix x assume x: "x \<in> S' - S"
  have len: "length h2 = length h" using f1 by (rule stripped_of_length)
  show "x < length h \<and> no_string_x (h' ! x) \<and> (\<forall>b\<in>refs_of (h' ! x). b < length h \<longrightarrow> b \<in> S')"
  proof (cases "x \<in> S2")
    case True
    with x have "x \<in> S2 - S" by simp
    with c1 have "x < length h \<and> no_string_x (h2 ! x)
        \<and> (\<forall>b\<in>refs_of (h2 ! x). b < length h \<longrightarrow> b \<in> S2)"
      unfolding closed_new_def by (rule bspec)
    then have xl: "x < length h" and ns: "no_string_x (h2 ! x)"
      and rf: "\<forall>b\<in>refs_of (h2 ! x). b < length h \<longrightarrow> b \<in> S2"
      by blast+
    have ns': "no_string_x (h' ! x)"
    proof (rule stripped_of_no_string [OF f2])
      show "x < length h2" using xl len by simp
      show "no_string_x (h2 ! x)" by (rule ns)
    qed
    have req: "refs_of (h' ! x) = refs_of (h2 ! x)"
    proof (rule stripped_of_refs [OF f2])
      show "x < length h2" using xl len by simp
    qed
    have "\<forall>b\<in>refs_of (h' ! x). b < length h \<longrightarrow> b \<in> S'"
      unfolding req using rf s2 by blast
    then show ?thesis using xl ns' by (intro conjI)
  next
    case False
    with x have "x \<in> S' - S2" by simp
    with c2 have "x < length h2 \<and> no_string_x (h' ! x)
        \<and> (\<forall>b\<in>refs_of (h' ! x). b < length h2 \<longrightarrow> b \<in> S')"
      unfolding closed_new_def by (rule bspec)
    then show ?thesis unfolding len .
  qed
qed

lemma closed_new_same: "closed_new h S h' S"
  unfolding closed_new_def by blast

lemma closed_newD:
  assumes "closed_new h S h' S'" and "a \<in> S'" and "a \<notin> S"
  shows "a < length h" and "no_string_x (h' ! a)"
    and "\<forall>b\<in>refs_of (h' ! a). b < length h \<longrightarrow> b \<in> S'"
proof -
  from assms(2,3) have "a \<in> S' - S" by blast
  with assms(1) have "a < length h \<and> no_string_x (h' ! a)
        \<and> (\<forall>b\<in>refs_of (h' ! a). b < length h \<longrightarrow> b \<in> S')"
    unfolding closed_new_def by (rule bspec)
  then show "a < length h" and "no_string_x (h' ! a)"
    and "\<forall>b\<in>refs_of (h' ! a). b < length h \<longrightarrow> b \<in> S'"
    by blast+
qed

lemma for_each_state_post:
  assumes post: "\<And>h S v h' S'. stripRemainingExpressions n (h, S) v = Some (h', S') \<Longrightarrow>
      (\<forall>a. v = HRef a \<longrightarrow> a < length h \<longrightarrow> a \<in> S') \<and> closed_new h S h' S'"
  shows "for_each_state (stripRemainingExpressions n) (h, S) vs = Some (h', S') \<Longrightarrow>
      (\<forall>a. HRef a \<in> set vs \<longrightarrow> a < length h \<longrightarrow> a \<in> S') \<and> closed_new h S h' S'"
proof (induction vs arbitrary: h S)
  case Nil
  then show ?case by (simp add: closed_new_same)
next
  case (Cons v vs)
  from Cons.prems obtain h2 S2 where 1: "stripRemainingExpressions n (h, S) v = Some (h2, S2)"
    and 2: "for_each_state (stripRemainingExpressions n) (h2, S2) vs = Some (h', S')"
    by (cases "stripRemainingExpressions n (h, S) v") auto
  from strip_frame [OF 1] have f1: "stripped_of h h2" and s1: "S \<subseteq> S2" by simp_all
  from for_each_state_frame_strip [OF 2] have f2: "stripped_of h2 h'" and s2: "S2 \<subseteq> S'"
    by simp_all
  have len: "length h2 = length h" using f1 by (rule stripped_of_length)
  from post [OF 1] have p1: "\<forall>a. v = HRef a \<longrightarrow> a < length h \<longrightarrow> a \<in> S2"
    and c1: "closed_new h S h2 S2" by simp_all
  from Cons.IH [OF 2] have p2: "\<forall>a. HRef a \<in> set vs \<longrightarrow> a < length h \<longrightarrow> a \<in> S'"
    and c2: "closed_new h2 S2 h' S'" by (simp_all add: len)
  have "\<forall>a. HRef a \<in> set (v # vs) \<longrightarrow> a < length h \<longrightarrow> a \<in> S'"
    using p1 p2 s2 by (simp only: set_simps insert_iff) blast
  moreover have "closed_new h S h' S'"
    using c1 c2 f1 f2 s2 by (rule closed_new_trans)
  ultimately show ?case by simp
qed

lemma strip_post:
  "stripRemainingExpressions n (h, S) v = Some (h', S') \<Longrightarrow>
      (\<forall>a. v = HRef a \<longrightarrow> a < length h \<longrightarrow> a \<in> S') \<and> closed_new h S h' S'"
proof (induction n arbitrary: h S v h' S')
  case 0
  then show ?case by simp
next
  case (Suc n)
  show ?case
  proof (cases rule: strip_cases [where v = v and h = h and S = S])
    case prim
    then show ?thesis using Suc.prems by (simp add: strip_primitive closed_new_same)
  next
    case (outside a)
    then show ?thesis using Suc.prems by (simp add: closed_new_same)
  next
    case (seen a)
    then show ?thesis using Suc.prems by (simp add: closed_new_same)
  next
    case (fresh a)
    let ?h1 = "h[a := strip_x (h ! a)]"
    have run: "for_each_state (stripRemainingExpressions n)
        (?h1, insert a S) (object_values (strip_x (h ! a))) = Some (h', S')"
      using Suc.prems unfolding fresh(1) strip_ref_unfold [OF fresh(2,3)] .
    from for_each_state_frame_strip [OF run] have f: "stripped_of ?h1 h'" and s: "insert a S \<subseteq> S'"
      by simp_all
    have "(\<forall>b. HRef b \<in> set (object_values (strip_x (h ! a))) \<longrightarrow> b < length ?h1 \<longrightarrow> b \<in> S')
          \<and> closed_new ?h1 (insert a S) h' S'"
      using run by (rule for_each_state_post [rotated]) (rule Suc.IH)
    then have kids: "\<forall>b. HRef b \<in> set (object_values (strip_x (h ! a))) \<longrightarrow> b < length h \<longrightarrow> b \<in> S'"
      and c: "closed_new ?h1 (insert a S) h' S'" by simp_all
    have a1: "?h1 ! a = strip_x (h ! a)" using fresh(2) by simp
    have nsa: "no_string_x (h' ! a)"
    proof (rule stripped_of_no_string [OF f])
      show "a < length ?h1" using fresh(2) by simp
      show "no_string_x (?h1 ! a)" unfolding a1 by (rule no_string_x_strip_x)
    qed
    have "refs_of (h' ! a) = refs_of (?h1 ! a)"
    proof (rule stripped_of_refs [OF f])
      show "a < length ?h1" using fresh(2) by simp
    qed
    then have rfa: "\<forall>b\<in>refs_of (h' ! a). b < length h \<longrightarrow> b \<in> S'"
      using kids refs_in_values [of _ "strip_x (h ! a)"] unfolding a1 by blast
    have "closed_new h S h' S'"
      unfolding closed_new_def
    proof (intro ballI)
      fix x assume x: "x \<in> S' - S"
      show "x < length h \<and> no_string_x (h' ! x) \<and> (\<forall>b\<in>refs_of (h' ! x). b < length h \<longrightarrow> b \<in> S')"
      proof (cases "x = a")
        case True
        then show ?thesis using fresh(2) nsa rfa by simp
      next
        case False
        with x have "x \<in> S'" "x \<notin> insert a S" by simp_all
        from closed_newD [OF c this] show ?thesis by simp
      qed
    qed
    then show ?thesis using fresh(1) s by simp
  qed
qed

lemma reach_visited:
  assumes f: "stripped_of h h'" and c: "closed_new h {} h' S'"
    and r: "\<forall>a. v = HRef a \<longrightarrow> a < length h \<longrightarrow> a \<in> S'"
  shows "a \<in> reach h v \<Longrightarrow> a \<in> S'"
proof (induction rule: reach.induct)
  case (root a)
  then show ?case using r by simp
next
  case (step a b)
  have "a \<notin> {}" by simp
  from closed_newD [OF c step.IH this] have al: "a < length h"
    and rf: "\<forall>b\<in>refs_of (h' ! a). b < length h \<longrightarrow> b \<in> S'"
    by simp_all
  have "refs_of (h' ! a) = refs_of (h ! a)" using f al by (rule stripped_of_refs)
  then show ?case using rf step.hyps(2,3) by simp
qed

lemma strip_reachable:
  assumes "stripRemainingExpressions n (h, {}) v = Some (h', S')" and "a \<in> reach h v"
  shows "no_string_x (h' ! a)"
proof -
  from strip_frame [OF assms(1)] have f: "stripped_of h h'" by simp
  from strip_post [OF assms(1)] have r: "\<forall>a. v = HRef a \<longrightarrow> a < length h \<longrightarrow> a \<in> S'"
    and c: "closed_new h {} h' S'" by simp_all
  have "a \<notin> {}" by simp
  from closed_newD(2) [OF c reach_visited [OF f c r assms(2)] this] show ?thesis .
qed

lemma for_each_state_mono:
  assumes "\<And>s x r. f s x = Some r \<Longrightarrow> g s x = Some r"
  shows "for_each_state f s xs = Some r \<Longrightarrow> for_each_state g s xs = Some r"
proof (induction xs arbitrary: s)
  case Nil
  then show ?case by simp
next
  case (Cons x xs)
  from Cons.prems obtain s' where 1: "f s x = Some s'" and 2: "for_each_state f s' xs = Some r"
    by (cases "f s x") auto
  from assms [OF 1] Cons.IH [OF 2] show ?case by simp
qed

lemma strip_fuel_Suc:
  "stripRemainingExpressions n st v = Some r \<Longrightarrow> stripRemainingExpressions (Suc n) st v = Some r"
proof (induction n arbitrary: st v r)
  case 0
  then show ?case by simp
next
  case (Suc n)
  obtain h S where st: "st = (h, S)" by (cases st)
  show ?case
  proof (cases rule: strip_cases [where v = v and h = h and S = S])
    case prim
    then show ?thesis using Suc.prems by (simp add: strip_primitive)
  next
    case (outside a)
    show ?thesis
      using Suc.prems unfolding st outside(1) strip_outside [OF outside(2)] .
  next
    case (seen a)
    show ?thesis
      using Suc.prems unfolding st seen(1) strip_seen [OF seen(2,3)] .
  next
    case (fresh a)
    have "for_each_state (stripRemainingExpressions n)
        (h[a := strip_x (h ! a)], insert a S) (object_values (strip_x (h ! a))) = Some r"
      using Suc.prems unfolding st fresh(1) strip_ref_unfold [OF fresh(2,3)] .
    then have "for_each_state (stripRemainingExpressions (Suc n))
        (h[a := strip_x (h ! a)], insert a S) (object_values (strip_x (h ! a))) = Some r"
      by (rule for_each_state_mono [rotated]) (rule Suc.IH)
    then show ?thesis
      unfolding st fresh(1) strip_ref_unfold [OF fresh(2,3)] .
  qed
qed

lemma strip_fuel_add:
  "stripRemainingExpressions n st v = Some r \<Longrightarrow> stripRemainingExpressions (n + k) st v = Some r"
  by (induction k) (simp_all add: strip_fuel_Suc del: stripRemainingExpressions.simps)

lemma finite_unseen [simp]: "finite (unseen h S)"
  unfolding unseen_def by simp

lemma unseen_insert:
  assumes "a < length h" and "a \<notin> S"
  shows "card (unseen h (insert a S)) < card (unseen h S)"
proof (rule psubset_card_mono)
  show "finite (unseen h S)" by simp
  have "a \<in> unseen h S" using assms by (simp add: unseen_def)
  moreover have "a \<notin> unseen h (insert a S)" by (simp add: unseen_def)
  moreover have "unseen h (insert a S) \<subseteq> unseen h S" unfolding unseen_def by blast
  ultimately show "unseen h (insert a S) \<subset> unseen h S" by blast
qed

lemma unseen_mono:
  assumes "length h' = length h" and "S \<subseteq> S'"
  shows "card (unseen h' S') \<le> card (unseen h S)"
proof (rule card_mono)
  show "finite (unseen h S)" by simp
  show "unseen h' S' \<subseteq> unseen h S" using assms unfolding unseen_def by auto
qed

lemma for_each_state_total:
  assumes tot: "\<And>h S v. length h = len \<Longrightarrow> S0 \<subseteq> S \<Longrightarrow>
                   \<exists>r. stripRemainingExpressions n (h, S) v = Some r"
  shows "length h = len \<Longrightarrow> S0 \<subseteq> S \<Longrightarrow>
         \<exists>r. for_each_state (stripRemainingExpressions n) (h, S) vs = Some r"
proof (induction vs arbitrary: h S)
  case Nil
  then show ?case by simp
next
  case (Cons v vs)
  from tot [OF Cons.prems] obtain h2 S2 where
    1: "stripRemainingExpressions n (h, S) v = Some (h2, S2)" by fastforce
  from strip_frame [OF 1] have "length h2 = length h" and "S \<subseteq> S2"
    by (simp_all add: stripped_of_length)
  then have "length h2 = len" and "S0 \<subseteq> S2" using Cons.prems by auto
  from Cons.IH [OF this] obtain r where
    "for_each_state (stripRemainingExpressions n) (h2, S2) vs = Some r" by blast
  then show ?case using 1 by simp
qed

lemma strip_enough_fuel:
  "card (unseen h S) < n \<Longrightarrow> \<exists>r. stripRemainingExpressions n (h, S) v = Some r"
proof (induction n arbitrary: h S v)
  case 0
  then show ?case by simp
next
  case (Suc n)
  show ?case
  proof (cases rule: strip_cases [where v = v and h = h and S = S])
    case prim
    then show ?thesis by (simp add: strip_primitive)
  next
    case (outside a)
    then show ?thesis by simp
  next
    case (seen a)
    then show ?thesis by simp
  next
    case (fresh a)
    let ?h1 = "h[a := strip_x (h ! a)]"
    have less: "card (unseen h (insert a S)) < n"
      using unseen_insert [OF fresh(2,3)] Suc.prems by linarith
    have "\<exists>r. for_each_state (stripRemainingExpressions n) (?h1, insert a S)
                 (object_values (strip_x (h ! a))) = Some r"
    proof (rule for_each_state_total [where len = "length h" and ?S0.0 = "insert a S"])
      fix h' :: heap and S' :: "nat set" and v' :: hval
      assume "length h' = length h" and "insert a S \<subseteq> S'"
      then have "card (unseen h' S') \<le> card (unseen h (insert a S))" by (rule unseen_mono)
      with less have "card (unseen h' S') < n" by linarith
      then show "\<exists>r. stripRemainingExpressions n (h', S') v' = Some r" by (rule Suc.IH)
    qed simp_all
    then show ?thesis
      unfolding fresh(1) strip_ref_unfold [OF fresh(2,3)] .
  qed
qed

lemma unseen_empty: "card (unseen h {}) = length h"
  by (simp add: unseen_def)

lemma strip_fixed_result:
  "\<exists>r. \<forall>n>length h. stripRemainingExpressions n (h, {}) v = Some r"
proof -
  have "card (unseen h {}) < Suc (length h)" by (simp add: unseen_empty)
  from strip_enough_fuel [OF this] obtain r where
    r: "stripRemainingExpressions (Suc (length h)) (h, {}) v = Some r" by blast
  have "stripRemainingExpressions n (h, {}) v = Some r" if "length h < n" for n
  proof -
    from that obtain k where "n = Suc (length h) + k"
      by (metis Suc_leI le_Suc_ex)
    then show ?thesis using strip_fuel_add [OF r, of k] by simp
  qed
  then show ?thesis by blast
qed

lemma cyclic_run:
  "stripRemainingExpressions 6 (cyclic_heap, {}) (HRef 0) = Some (cyclic_stripped, {0, 1, 2, 3})"
proof -
  have "stripRemainingExpressions (Suc (Suc (Suc (Suc (Suc (Suc 0)))))) (cyclic_heap, {}) (HRef 0)
        = Some (cyclic_stripped, {0, 1, 2, 3})"
    by (simp add: cyclic_heap_def cyclic_stripped_def Let_def insert_commute)
  moreover have "(6::nat) = Suc (Suc (Suc (Suc (Suc (Suc 0)))))" by simp
  ultimately show ?thesis by (simp only:)
qed

lemma refs_of_field: "map_of fs k = Some (HRef b) \<Longrightarrow> b \<in> refs_of (HObj fs)"
  by auto

text \<open>
  C8. \<^verbatim>\<open>stripRemainingExpressions\<close> terminates on every object graph, cyclic or shared: with
  any fuel above the number of objects in the store it returns, and always the same result.
  After the call no object reachable from the argument has a string-valued \<^verbatim>\<open>x\<close>. On
  an object that is already in the visited set it applies the deletion of a string-valued
  \<^verbatim>\<open>x\<close> and returns without descending.
\<close>

theorem strip_terminates_on_graphs:
  "(\<exists>h' seen'. (\<forall>n>length h. stripRemainingExpressions n (h, {}) v = Some (h', seen'))
               \<and> (\<forall>a\<in>reach h v. no_string_x (h' ! a)))
   \<and> (\<forall>n seen a. a < length h \<and> a \<in> seen \<longrightarrow>
         stripRemainingExpressions (Suc n) (h, seen) (HRef a) = Some (h[a := strip_x (h ! a)], seen))"
proof (rule conjI)
  from strip_fixed_result [of h v] obtain h' seen' where
    r: "\<forall>n>length h. stripRemainingExpressions n (h, {}) v = Some (h', seen')"
    by fastforce
  then have "stripRemainingExpressions (Suc (length h)) (h, {}) v = Some (h', seen')" by simp
  then have "\<forall>a\<in>reach h v. no_string_x (h' ! a)"
    using strip_reachable by blast
  with r show "\<exists>h' seen'. (\<forall>n>length h. stripRemainingExpressions n (h, {}) v = Some (h', seen'))
               \<and> (\<forall>a\<in>reach h v. no_string_x (h' ! a))"
    by blast
next
  show "\<forall>n seen a. a < length h \<and> a \<in> seen \<longrightarrow>
         stripRemainingExpressions (Suc n) (h, seen) (HRef a) = Some (h[a := strip_x (h ! a)], seen)"
    by (simp add: strip_seen del: stripRemainingExpressions.simps)
qed

text \<open>
  The theorem at the cyclic store: the traversal from object 0 returns the same result with
  fuel 6 and with fuel 1000, object 3 (reached through the object-valued \<^verbatim>\<open>x\<close> of object 2) has lost its string
  \<^verbatim>\<open>x\<close>, and a revisit of object 0 strips it without descending.
\<close>

theorem strip_terminates_on_graphs_witness:
  "stripRemainingExpressions 6 (cyclic_heap, {}) (HRef 0) = Some (cyclic_stripped, {0, 1, 2, 3})
   \<and> stripRemainingExpressions 1000 (cyclic_heap, {}) (HRef 0)
       = Some (cyclic_stripped, {0, 1, 2, 3})
   \<and> no_string_x (cyclic_stripped ! 3)
   \<and> stripRemainingExpressions 1 (cyclic_heap, {0}) (HRef 0)
       = Some (cyclic_heap[0 := HObj [(''self'', HRef 0), (''ks'', HRef 1), (''p'', HRef 2)]], {0})"
proof -
  have len: "length cyclic_heap = 5" by (simp add: cyclic_heap_def)
  from strip_terminates_on_graphs [of cyclic_heap "HRef 0", THEN conjunct1]
  obtain h' seen' where
    all: "\<forall>n>length cyclic_heap.
            stripRemainingExpressions n (cyclic_heap, {}) (HRef 0) = Some (h', seen')"
    and ns: "\<forall>a\<in>reach cyclic_heap (HRef 0). no_string_x (h' ! a)"
    by blast
  from all have "stripRemainingExpressions 6 (cyclic_heap, {}) (HRef 0) = Some (h', seen')"
    by (simp add: len del: stripRemainingExpressions.simps)
  with cyclic_run have eq: "h' = cyclic_stripped" "seen' = {0, 1, 2, 3}" by simp_all
  have r0: "0 \<in> reach cyclic_heap (HRef 0)"
    by (rule reach.root) (simp_all add: len)
  have "map_of [(''x'', HStr ''wiggle(1, 2)''), (''self'', HRef 0), (''ks'', HRef 1), (''p'', HRef 2)]
          ''p'' = Some (HRef 2)" by simp
  then have "2 \<in> refs_of (HObj [(''x'', HStr ''wiggle(1, 2)''), (''self'', HRef 0),
                                   (''ks'', HRef 1), (''p'', HRef 2)])"
    by (rule refs_of_field)
  then have "2 \<in> refs_of (cyclic_heap ! 0)"
    unfolding cyclic_heap_def by (simp del: refs_of.simps)
  with r0 have r2: "2 \<in> reach cyclic_heap (HRef 0)"
    by (rule reach.step) (simp add: len)
  have "map_of [(''x'', HRef 3), (''a'', HNum (Fin 1))] ''x'' = Some (HRef 3)" by simp
  then have "3 \<in> refs_of (HObj [(''x'', HRef 3), (''a'', HNum (Fin 1))])"
    by (rule refs_of_field)
  then have "3 \<in> refs_of (cyclic_heap ! 2)"
    unfolding cyclic_heap_def by (simp del: refs_of.simps)
  with r2 have r3: "3 \<in> reach cyclic_heap (HRef 0)"
    by (rule reach.step) (simp add: len)
  from ns r3 have "no_string_x (cyclic_stripped ! 3)" unfolding eq(1) by (rule bspec)
  moreover from all have every: "\<forall>n>5. stripRemainingExpressions n (cyclic_heap, {}) (HRef 0)
            = Some (cyclic_stripped, {0, 1, 2, 3})"
    unfolding eq len .
  moreover from every have "stripRemainingExpressions 1000 (cyclic_heap, {}) (HRef 0)
       = Some (cyclic_stripped, {0, 1, 2, 3})"
    by (simp del: stripRemainingExpressions.simps)
  moreover have "stripRemainingExpressions 1 (cyclic_heap, {0}) (HRef 0)
       = Some (cyclic_heap[0 := HObj [(''self'', HRef 0), (''ks'', HRef 1), (''p'', HRef 2)]], {0})"
  proof -
    have "(0::nat) < length cyclic_heap \<and> (0::nat) \<in> {0}" by (simp add: len)
    with strip_terminates_on_graphs [of cyclic_heap "HRef 0", THEN conjunct2]
    have "stripRemainingExpressions (Suc 0) (cyclic_heap, {0}) (HRef 0)
          = Some (cyclic_heap[0 := strip_x (cyclic_heap ! 0)], {0})"
      by blast
    moreover have "strip_x (cyclic_heap ! 0)
                   = HObj [(''self'', HRef 0), (''ks'', HRef 1), (''p'', HRef 2)]"
      by (simp add: cyclic_heap_def)
    ultimately show ?thesis by (simp del: stripRemainingExpressions.simps)
  qed
  ultimately show ?thesis using cyclic_run by (intro conjI)
qed

lemma strip_x_shape:
  "strip_x ob = ob \<or>
   (\<exists>fs s. ob = HObj fs \<and> map_of fs ''x'' = Some (HStr s) \<and> strip_x ob = HObj (AList.delete ''x'' fs))"
proof (cases ob)
  case (HObj fs)
  show ?thesis
  proof (cases "\<exists>s. map_of fs ''x'' = Some (HStr s)")
    case True
    then obtain s where s: "map_of fs ''x'' = Some (HStr s)" by blast
    then have "strip_x (HObj fs) = HObj (AList.delete ''x'' fs)" by (rule strip_x_string)
    with s HObj show ?thesis by blast
  next
    case False
    then have "strip_x (HObj fs) = HObj fs" by (intro strip_x_other) simp
    with HObj show ?thesis by simp
  qed
qed simp

text \<open>
  C10. \<^verbatim>\<open>stripRemainingExpressions\<close> changes the store only by deleting string-valued \<^verbatim>\<open>x\<close>
  fields: after the call every object is either as it was, or it had a string-valued \<^verbatim>\<open>x\<close>
  and is now the same object without \<^verbatim>\<open>x\<close>. An object whose \<^verbatim>\<open>x\<close> is absent or holds a
  non-string value is unchanged, arrays are unchanged, and every field other than \<^verbatim>\<open>x\<close>
  keeps its value.
\<close>

theorem strip_only_string_x:
  assumes run: "stripRemainingExpressions n (h, seen) v = Some (h', seen')" and a: "a < length h"
  shows "length h' = length h
     \<and> (h' ! a = h ! a \<or>
        (\<exists>fs s. h ! a = HObj fs \<and> map_of fs ''x'' = Some (HStr s)
                \<and> h' ! a = HObj (AList.delete ''x'' fs)))
     \<and> (\<forall>fs. h ! a = HObj fs \<and> (\<forall>s. map_of fs ''x'' \<noteq> Some (HStr s)) \<longrightarrow> h' ! a = HObj fs)
     \<and> (\<forall>items. h ! a = HArr items \<longrightarrow> h' ! a = HArr items)
     \<and> (\<forall>fs. h ! a = HObj fs \<longrightarrow>
           (\<exists>fs'. h' ! a = HObj fs' \<and> (\<forall>k. k \<noteq> ''x'' \<longrightarrow> map_of fs' k = map_of fs k)))"
proof -
  from strip_frame [OF run] have f: "stripped_of h h'" by simp
  then have len: "length h' = length h" by (rule stripped_of_length)
  from stripped_of_nth [OF f a] have c: "h' ! a = h ! a \<or> h' ! a = strip_x (h ! a)" .
  have 2: "h' ! a = h ! a \<or>
        (\<exists>fs s. h ! a = HObj fs \<and> map_of fs ''x'' = Some (HStr s)
                \<and> h' ! a = HObj (AList.delete ''x'' fs))"
    using c strip_x_shape [of "h ! a"] by metis
  have 3: "\<forall>fs. h ! a = HObj fs \<and> (\<forall>s. map_of fs ''x'' \<noteq> Some (HStr s)) \<longrightarrow> h' ! a = HObj fs"
    using 2 by auto
  have 4: "\<forall>items. h ! a = HArr items \<longrightarrow> h' ! a = HArr items"
    using 2 by auto
  have 5: "\<forall>fs. h ! a = HObj fs \<longrightarrow>
           (\<exists>fs'. h' ! a = HObj fs' \<and> (\<forall>k. k \<noteq> ''x'' \<longrightarrow> map_of fs' k = map_of fs k))"
  proof (intro allI impI)
    fix fs assume fs: "h ! a = HObj fs"
    from 2 show "\<exists>fs'. h' ! a = HObj fs' \<and> (\<forall>k. k \<noteq> ''x'' \<longrightarrow> map_of fs' k = map_of fs k)"
    proof
      assume "h' ! a = h ! a"
      then show ?thesis using fs by simp
    next
      assume "\<exists>fs s. h ! a = HObj fs \<and> map_of fs ''x'' = Some (HStr s)
                \<and> h' ! a = HObj (AList.delete ''x'' fs)"
      then have "h' ! a = HObj (AList.delete ''x'' fs)" using fs by auto
      then show ?thesis by (simp add: delete_conv')
    qed
  qed
  from len 2 3 4 5 show ?thesis by (intro conjI)
qed

text \<open>
  The theorem at the cyclic store: object 2, whose \<^verbatim>\<open>x\<close> holds a reference, and array 1
  are unchanged.
\<close>

theorem strip_only_string_x_witness:
  "length cyclic_stripped = length cyclic_heap
   \<and> cyclic_stripped ! 2 = HObj [(''x'', HRef 3), (''a'', HNum (Fin 1))]
   \<and> cyclic_stripped ! 1 = HArr [HRef 2, HRef 0, HNum (Fin 1)]"
proof -
  have a2: "2 < length cyclic_heap" and a1: "1 < length cyclic_heap"
    by (simp_all add: cyclic_heap_def)
  have o2: "cyclic_heap ! 2 = HObj [(''x'', HRef 3), (''a'', HNum (Fin 1))]
            \<and> (\<forall>s. map_of [(''x'', HRef 3), (''a'', HNum (Fin 1))] ''x'' \<noteq> Some (HStr s))"
    by (simp add: cyclic_heap_def)
  have o1: "cyclic_heap ! 1 = HArr [HRef 2, HRef 0, HNum (Fin 1)]"
    by (simp add: cyclic_heap_def)
  note t2 = strip_only_string_x [OF cyclic_run a2]
  note t1 = strip_only_string_x [OF cyclic_run a1]
  from t2 have "length cyclic_stripped = length cyclic_heap" by (rule conjunct1)
  moreover from t2 [THEN conjunct2, THEN conjunct2, THEN conjunct1] o2
  have "cyclic_stripped ! 2 = HObj [(''x'', HRef 3), (''a'', HNum (Fin 1))]" by blast
  moreover from t1 [THEN conjunct2, THEN conjunct2, THEN conjunct2, THEN conjunct1] o1
  have "cyclic_stripped ! 1 = HArr [HRef 2, HRef 0, HNum (Fin 1)]" by blast
  ultimately show ?thesis by (intro conjI)
qed

end
